theory Spec2Isabelle
  imports Main "HOL-Library.Word"
begin

section \<open>Symbols and results\<close>

text \<open>
  The enumeration \<open>Sym\<close> of \<^verbatim>\<open>scanner.c\<close>, in declaration order. The array of valid
  symbols that the parser hands to the scanner is a function from symbols to booleans.
\<close>

datatype Sym =
  SEMICOLON | START | END | DOT | WHERE | VARSYM | COMMENT | FOLD | COMMA | IN | INDENT
  | EMPTY | FAIL

text \<open>The indices \<open>0 .. EMPTY\<close> that the loop of \<open>all_syms\<close> visits, in order.\<close>

definition syms_upto_EMPTY :: "Sym list" where
  "syms_upto_EMPTY =
     [SEMICOLON, START, END, DOT, WHERE, VARSYM, COMMENT, FOLD, COMMA, IN, INDENT, EMPTY]"

definition all_syms :: "(Sym \<Rightarrow> bool) \<Rightarrow> bool" where
  "all_syms syms = list_all syms syms_upto_EMPTY"

text \<open>The struct \<open>Result\<close> with its three constructors.\<close>

record Result =
  sym :: Sym
  finished :: bool

definition res_cont :: Result where
  "res_cont = \<lparr>sym = FAIL, finished = False\<rparr>"

definition res_finish :: "Sym \<Rightarrow> Result" where
  "res_finish t = \<lparr>sym = t, finished = True\<rparr>"

definition res_fail :: Result where
  "res_fail = \<lparr>sym = FAIL, finished = True\<rparr>"

definition finish :: "Sym \<Rightarrow> Result" where
  "finish s = res_finish s"

section \<open>The indent stack\<close>

text \<open>
  The struct \<open>indent_vec\<close> holds a length, a capacity and a heap array of 16-bit entries.
  Only the first \<open>len\<close> cells of the array are ever read (by \<open>VEC_BACK\<close> and by
  \<open>serialize\<close>), so the model keeps exactly those live cells as the list \<open>data\<close>; the
  field \<open>len\<close> of the C struct is the length of that list. The capacity \<open>cap\<close> is a
  32-bit unsigned number, kept as a natural number with the wrap-around written out
  where the C code computes it.

  Reading or writing the array outside its capacity, or the host buffer outside its
  size, is undefined behaviour in C; the model returns the error \<open>OutOfBounds\<close> there.
  \<open>realloc\<close> is taken to succeed (the \<open>assert\<close> after it does not fire).
\<close>

datatype error = OutOfBounds

record indent_vec =
  data :: "16 word list"
  cap :: nat

definition len :: "indent_vec \<Rightarrow> nat" where
  "len vec = length (data vec)"

definition VEC_RESIZE :: "indent_vec \<Rightarrow> nat \<Rightarrow> indent_vec" where
  "VEC_RESIZE vec c = vec\<lparr>cap := c\<rparr>"

definition VEC_GROW :: "indent_vec \<Rightarrow> nat \<Rightarrow> indent_vec" where
  "VEC_GROW vec c = (if cap vec < c then VEC_RESIZE vec c else vec)"

text \<open>
  \<open>VEC_PUSH\<close>: when the array is full it is resized to \<open>MAX(20, len * 2)\<close>, a product
  of \<open>uint32_t\<close>, and then the cell at index \<open>len\<close> is written.
\<close>

definition VEC_PUSH :: "indent_vec \<Rightarrow> 16 word \<Rightarrow> error + indent_vec" where
  "VEC_PUSH vec el =
     (let vec' = (if cap vec = len vec
                  then VEC_RESIZE vec (max 20 ((len vec * 2) mod 2 ^ 32))
                  else vec)
      in if len vec < cap vec' then Inr (vec'\<lparr>data := data vec' @ [el]\<rparr>)
         else Inl OutOfBounds)"

definition VEC_POP :: "indent_vec \<Rightarrow> indent_vec" where
  "VEC_POP vec = vec\<lparr>data := butlast (data vec)\<rparr>"

definition VEC_BACK :: "indent_vec \<Rightarrow> 16 word" where
  "VEC_BACK vec = last (data vec)"

text \<open>The result of \<open>create\<close>: a zeroed struct.\<close>

definition create :: indent_vec where
  "create = \<lparr>data = [], cap = 0\<rparr>"

section \<open>Serialization\<close>

text \<open>
  \<open>memcpy\<close> moves bytes; a 16-bit entry occupies two of them. The model fixes the
  little-endian order (low byte first). \<open>memcpy dst src n\<close> is the destination after
  \<open>n\<close> bytes of \<open>src\<close> were copied to its start.
\<close>

definition bytes_of_u16 :: "16 word \<Rightarrow> 8 word list" where
  "bytes_of_u16 w = [of_nat (unat w mod 256), of_nat (unat w div 256)]"

definition u16_of_bytes :: "8 word \<Rightarrow> 8 word \<Rightarrow> 16 word" where
  "u16_of_bytes lo hi = of_nat (unat lo + 256 * unat hi)"

definition bytes_of :: "16 word list \<Rightarrow> 8 word list" where
  "bytes_of ws = concat (map bytes_of_u16 ws)"

fun words_of :: "8 word list \<Rightarrow> 16 word list" where
  "words_of (lo # hi # bs) = u16_of_bytes lo hi # words_of bs"
| "words_of bs = []"

definition memcpy :: "'a list \<Rightarrow> 'a list \<Rightarrow> nat \<Rightarrow> 'a list" where
  "memcpy dst src n = take n src @ drop n dst"

text \<open>
  \<open>tree_sitter_unison_external_scanner_serialize\<close>. The constant
  \<open>TREE_SITTER_SERIALIZATION_BUFFER_SIZE\<close> comes from the header
  \<^verbatim>\<open>tree_sitter/parser.h\<close>, which is not part of the repository: it is the parameter
  \<open>buffer_size\<close>. The byte count \<open>to_copy\<close> has type \<open>unsigned\<close>, so the product
  \<open>sizeof(uint16_t) * len\<close> is reduced modulo \<open>2 ^ 32\<close>. The result is the buffer after
  the call and the returned count.
\<close>

definition serialize :: "nat \<Rightarrow> indent_vec \<Rightarrow> 8 word list \<Rightarrow> error + (8 word list \<times> nat)" where
  "serialize buffer_size indents buffer =
     (let to_copy = (2 * len indents) mod 2 ^ 32 in
      if to_copy > buffer_size then Inr (buffer, 0)
      else if length buffer < to_copy then Inl OutOfBounds
      else Inr (memcpy buffer (bytes_of (data indents)) to_copy, to_copy))"

text \<open>
  \<open>tree_sitter_unison_external_scanner_deserialize\<close>. \<open>memcpy\<close> reads \<open>length\<close> bytes
  of the buffer and writes them over the array, which has \<open>2 * cap\<close> bytes after
  \<open>VEC_GROW\<close>; the live cells are then the first \<open>els\<close> entries decoded from the buffer.
\<close>

definition deserialize :: "indent_vec \<Rightarrow> 8 word list \<Rightarrow> 32 word \<Rightarrow> error + indent_vec" where
  "deserialize indents buffer length' =
     (let els = unat length' div 2 in
      if els > 0 then
        (let grown = VEC_GROW indents els in
         if length buffer < unat length' \<or> 2 * cap grown < unat length'
         then Inl OutOfBounds
         else Inr (grown\<lparr>data := words_of (take (2 * els) buffer)\<rparr>))
      else Inr indents)"

section \<open>The host lexer and the scanner state\<close>

text \<open>
  Modelled from the spec: the host lexer \<open>TSLexer\<close> is declared in the header
  \<^verbatim>\<open>tree_sitter/parser.h\<close>, which is not part of the repository. The spec gives its
  contract: peek the next code point (0 at end of file), advance with or without
  capture, query the column, query end of file, mark the token end, and the result
  symbol. The model keeps the input that is still to be read (\<open>rest\<close>), the number of
  code points consumed (\<open>pos\<close>), the column of the current position (\<open>col\<close>, reset by
  a line feed), the token start (moved by a skipping advance) and the marked token end.
  Advancing at end of file changes nothing.
\<close>

record TSLexer =
  rest :: "32 word list"
  pos :: nat
  col :: "32 word"
  token_start :: nat
  token_end :: "nat option"
  result_symbol :: Sym

definition lookahead :: "TSLexer \<Rightarrow> 32 word" where
  "lookahead l = (case rest l of [] \<Rightarrow> 0 | c # cs \<Rightarrow> c)"

definition lexer_eof :: "TSLexer \<Rightarrow> bool" where
  "lexer_eof l = (rest l = [])"

definition lexer_advance :: "TSLexer \<Rightarrow> bool \<Rightarrow> TSLexer" where
  "lexer_advance l skip =
     (case rest l of
        [] \<Rightarrow> l
      | c # cs \<Rightarrow>
          l\<lparr>rest := cs, pos := pos l + 1,
            col := (if c = of_char (CHR 0x0A) then 0 else col l + 1),
            token_start := (if skip then pos l + 1 else token_start l)\<rparr>)"

definition mark_end :: "TSLexer \<Rightarrow> TSLexer" where
  "mark_end l = l\<lparr>token_end := Some (pos l)\<rparr>"

definition get_column :: "TSLexer \<Rightarrow> 32 word" where
  "get_column l = col l"

text \<open>A lexer placed at the start of an input, as the host sets it up before a scan.\<close>

definition lexer_at :: "32 word list \<Rightarrow> TSLexer" where
  "lexer_at cs =
     \<lparr>rest = cs, pos = 0, col = 0, token_start = 0, token_end = None, result_symbol = FAIL\<rparr>"

text \<open>
  The struct \<open>State\<close>: the lexer, the valid symbols and the indent stack. Its debugging
  fields and all debugging output are left out; they do not influence any result.
\<close>

record State =
  lexer :: TSLexer
  symbols :: "Sym \<Rightarrow> bool"
  indents :: indent_vec

definition PEEK :: "State \<Rightarrow> 32 word" where
  "PEEK st = lookahead (lexer st)"

definition S_ADVANCE :: "State \<Rightarrow> State" where
  "S_ADVANCE st = st\<lparr>lexer := lexer_advance (lexer st) False\<rparr>"

definition S_SKIP :: "State \<Rightarrow> State" where
  "S_SKIP st = st\<lparr>lexer := lexer_advance (lexer st) True\<rparr>"

definition SYM :: "State \<Rightarrow> Sym \<Rightarrow> bool" where
  "SYM st s = symbols st s"

definition is_eof :: "State \<Rightarrow> bool" where
  "is_eof st = lexer_eof (lexer st)"

definition column :: "State \<Rightarrow> 32 word" where
  "column st = (if is_eof st then 0 else get_column (lexer st))"

definition MARK :: "State \<Rightarrow> State" where
  "MARK st = st\<lparr>lexer := mark_end (lexer st)\<rparr>"

section \<open>Conditions\<close>

fun seq :: "string \<Rightarrow> State \<Rightarrow> bool \<times> State" where
  "seq [] st = (True, st)"
| "seq (c # s) st = (if of_char c \<noteq> PEEK st then (False, st) else seq s (S_ADVANCE st))"

definition isws :: "32 word \<Rightarrow> bool" where
  "isws c \<longleftrightarrow> c \<in> {of_char CHR '' '', of_char (CHR 0x0C), of_char (CHR 0x0A),
                  of_char (CHR 0x0D), of_char (CHR 0x09), of_char (CHR 0x0B)}"

definition token_end' :: "32 word \<Rightarrow> bool" where
  "token_end' c \<longleftrightarrow> c \<in> {of_char CHR '' '', of_char (CHR 0x0C), of_char (CHR 0x0A),
                  of_char (CHR 0x0D), of_char (CHR 0x09), of_char (CHR 0x0B), 0,
                  of_char CHR ''('', of_char CHR '')'', of_char CHR ''['', of_char CHR '']''}"

definition token :: "string \<Rightarrow> State \<Rightarrow> bool \<times> State" where
  "token s st = (case seq s st of (b, st') \<Rightarrow> (b \<and> token_end' (PEEK st'), st'))"

definition indent_exists :: "State \<Rightarrow> bool" where
  "indent_exists st \<longleftrightarrow> len (indents st) \<noteq> 0"

text \<open>
  The comparisons take the indent as \<open>uint32_t\<close>; the 16-bit stack top is promoted
  before it is compared.
\<close>

definition same_indent :: "32 word \<Rightarrow> State \<Rightarrow> bool" where
  "same_indent indent st \<longleftrightarrow> indent_exists st \<and> indent = ucast (VEC_BACK (indents st))"

definition smaller_indent :: "32 word \<Rightarrow> State \<Rightarrow> bool" where
  "smaller_indent indent st \<longleftrightarrow> indent_exists st \<and> indent < ucast (VEC_BACK (indents st))"

definition indent_lesseq :: "32 word \<Rightarrow> State \<Rightarrow> bool" where
  "indent_lesseq indent st \<longleftrightarrow> indent_exists st \<and> indent \<le> ucast (VEC_BACK (indents st))"

definition is_newline :: "32 word \<Rightarrow> bool" where
  "is_newline c \<longleftrightarrow> c \<in> {of_char (CHR 0x0A), of_char (CHR 0x0D), of_char (CHR 0x0C)}"

definition after_error :: "State \<Rightarrow> bool" where
  "after_error st = all_syms (symbols st)"

definition symbolic :: "32 word \<Rightarrow> bool" where
  "symbolic c \<longleftrightarrow> c \<in> {of_char CHR ''!'', of_char CHR ''#'', of_char CHR ''$'',
                  of_char CHR ''%'', of_char CHR ''&'', of_char CHR ''*'', of_char CHR ''+'',
                  of_char CHR ''.'', of_char CHR ''/'', of_char CHR ''<'', of_char CHR ''>'',
                  of_char CHR ''?'', of_char CHR ''^'', of_char CHR '':'', of_char CHR ''='',
                  of_char CHR ''-'', of_char CHR ''~'', of_char CHR ''@'', of_char (CHR 0x5C),
                  of_char CHR ''|''}"

section \<open>Layout primitives\<close>

definition finish_if_valid :: "Sym \<Rightarrow> State \<Rightarrow> Result" where
  "finish_if_valid s st = (if SYM st s then finish s else res_cont)"

text \<open>\<open>push\<close> takes its argument as \<open>uint16_t\<close>; callers pass a 32-bit column.\<close>

definition push :: "16 word \<Rightarrow> State \<Rightarrow> error + State" where
  "push ind st =
     (case VEC_PUSH (indents st) ind of
        Inl e \<Rightarrow> Inl e
      | Inr vec \<Rightarrow> Inr (st\<lparr>indents := vec\<rparr>))"

definition pop :: "State \<Rightarrow> State" where
  "pop st = (if indent_exists st then st\<lparr>indents := VEC_POP (indents st)\<rparr> else st)"

function skipspace :: "State \<Rightarrow> State" where
  "skipspace st =
     (if PEEK st = of_char CHR '' '' \<or> PEEK st = of_char (CHR 0x09)
      then skipspace (S_SKIP st) else st)"
  by pat_completeness auto
termination
  by (relation "measure (\<lambda>st. length (rest (lexer st)))")
     (auto simp: PEEK_def S_SKIP_def lookahead_def lexer_advance_def split: list.splits)

declare skipspace.simps [simp del]

definition layout_end :: "State \<Rightarrow> Result \<times> State" where
  "layout_end st = (if SYM st END then (finish END, pop st) else (res_cont, st))"

definition end_or_semicolon :: "State \<Rightarrow> Result \<times> State" where
  "end_or_semicolon st =
     (case layout_end st of (res, st') \<Rightarrow>
        if finished res then (res, st') else (finish_if_valid SEMICOLON st', st'))"

section \<open>Logic\<close>

text \<open>The loop of \<open>count_indent\<close>; the counter is a \<open>uint32_t\<close>.\<close>

function count_indent_loop :: "32 word \<Rightarrow> State \<Rightarrow> 32 word \<times> State" where
  "count_indent_loop indent st =
     (if is_newline (PEEK st) then count_indent_loop 0 (S_SKIP st)
      else if PEEK st = of_char CHR '' '' then count_indent_loop (indent + 1) (S_SKIP st)
      else if PEEK st = of_char (CHR 0x09) then count_indent_loop (indent + 8) (S_SKIP st)
      else (indent, st))"
  by pat_completeness auto
termination
  by (relation "measure (\<lambda>(indent, st). length (rest (lexer st)))")
     (auto simp: PEEK_def S_SKIP_def lookahead_def lexer_advance_def is_newline_def
           split: list.splits)

declare count_indent_loop.simps [simp del]

definition count_indent :: "State \<Rightarrow> 32 word \<times> State" where
  "count_indent st = count_indent_loop 0 st"

definition eof :: "State \<Rightarrow> Result \<times> State" where
  "eof st =
     (if is_eof st then
        (if SYM st EMPTY then (finish EMPTY, st)
         else (case end_or_semicolon st of (res, st') \<Rightarrow>
                 if finished res then (res, st') else (res_fail, st')))
      else (res_cont, st))"

text \<open>
  \<open>dot\<close> asks \<open>iswspace\<close> of \<^verbatim>\<open>wctype.h\<close> about the character after the dot. That
  function belongs to the C library, not to the repository, and its answer outside
  ASCII depends on the library and the locale: it is the parameter \<open>iswspace\<close>.
\<close>

definition dot :: "(32 word \<Rightarrow> bool) \<Rightarrow> State \<Rightarrow> Result \<times> State" where
  "dot iswspace st =
     (if SYM st DOT then
        (if PEEK st = of_char CHR ''.'' then
           (let st1 = S_ADVANCE st in
            if SYM st1 VARSYM \<and> iswspace (PEEK st1) then (finish VARSYM, st1)
            else (finish DOT, MARK st1))
         else (res_cont, st))
      else (res_cont, st))"

text \<open>The loop \<^verbatim>\<open>while(!is_eof(state)) S_ADVANCE;\<close> of \<open>fold\<close> and \<open>minus\<close>.\<close>

function advance_to_eof :: "State \<Rightarrow> State" where
  "advance_to_eof st = (if is_eof st then st else advance_to_eof (S_ADVANCE st))"
  by pat_completeness auto
termination
  by (relation "measure (\<lambda>st. length (rest (lexer st)))")
     (auto simp: is_eof_def lexer_eof_def S_ADVANCE_def lexer_advance_def split: list.splits)

declare advance_to_eof.simps [simp del]

definition fold' :: "State \<Rightarrow> Result \<times> State" where
  "fold' st =
     (case seq ''---'' st of (b, st1) \<Rightarrow>
        if b then (finish FOLD, MARK (advance_to_eof st1)) else (res_cont, st1))"

definition dedent :: "32 word \<Rightarrow> State \<Rightarrow> Result \<times> State" where
  "dedent indent st = (if smaller_indent indent st then layout_end st else (res_cont, st))"

definition newline_semicolon :: "32 word \<Rightarrow> State \<Rightarrow> Result" where
  "newline_semicolon indent st =
     (if SYM st SEMICOLON \<and> same_indent indent st then finish SEMICOLON else res_cont)"

definition where' :: "State \<Rightarrow> Result \<times> State" where
  "where' st =
     (case token ''where'' st of (b, st1) \<Rightarrow>
        if b then (if SYM st1 WHERE then (finish WHERE, MARK st1) else layout_end st1)
        else (res_cont, st1))"

definition in' :: "State \<Rightarrow> Result \<times> State" where
  "in' st =
     (if SYM st IN then
        (case token ''in'' st of (b, st1) \<Rightarrow>
           if b then (finish IN, pop (MARK st1)) else (res_cont, st1))
      else (res_cont, st))"

definition else' :: "State \<Rightarrow> Result \<times> State" where
  "else' st =
     (case token ''else'' st of (b, st1) \<Rightarrow>
        if b then layout_end st1 else (res_cont, st1))"

function inline_comment :: "State \<Rightarrow> Result \<times> State" where
  "inline_comment st =
     (if is_newline (PEEK st) \<or> PEEK st = 0 then (finish COMMENT, MARK st)
      else inline_comment (S_ADVANCE st))"
  by pat_completeness auto
termination
  by (relation "measure (\<lambda>st. length (rest (lexer st)))")
     (auto simp: PEEK_def S_ADVANCE_def lookahead_def lexer_advance_def split: list.splits)

declare inline_comment.simps [simp del]

definition minus' :: "State \<Rightarrow> Result \<times> State" where
  "minus' st =
     (case seq ''--'' st of (b, st1) \<Rightarrow>
        if \<not> b then (res_cont, st1)
        else if PEEK st1 = of_char CHR ''-'' then
          (let st2 = S_ADVANCE st1 in
           if is_eof st2 \<or> is_newline (PEEK st2)
           then (finish FOLD, MARK (advance_to_eof st2))
           else (res_fail, st2))
        else inline_comment st1)"

definition multiline_comment_success :: "State \<Rightarrow> Result \<times> State" where
  "multiline_comment_success st = (finish COMMENT, MARK st)"

text \<open>
  The loop of \<open>multiline_comment\<close>; the nesting counter \<open>level\<close> is a \<open>uint16_t\<close>, so
  \<open>level++\<close> and \<open>level--\<close> are arithmetic modulo \<open>2 ^ 16\<close>.
\<close>

function multiline_comment_loop :: "16 word \<Rightarrow> State \<Rightarrow> Result \<times> State" where
  "multiline_comment_loop level st =
     (if PEEK st = of_char CHR ''{'' then
        (let st1 = S_ADVANCE st in
         if PEEK st1 = of_char CHR ''-''
         then multiline_comment_loop (level + 1) (S_ADVANCE st1)
         else multiline_comment_loop level st1)
      else if PEEK st = of_char CHR ''-'' then
        (let st1 = S_ADVANCE st in
         if PEEK st1 = of_char CHR ''}'' then
           (let st2 = S_ADVANCE st1 in
            if level = 0 then multiline_comment_success st2
            else multiline_comment_loop (level - 1) st2)
         else multiline_comment_loop level st1)
      else if PEEK st = 0 then
        (case eof st of (res, st') \<Rightarrow>
           if finished res then (res, st') else (res_fail, st'))
      else multiline_comment_loop level (S_ADVANCE st))"
  by pat_completeness auto
termination
  by (relation "measure (\<lambda>(level, st). length (rest (lexer st)))")
     (auto simp: PEEK_def S_ADVANCE_def lookahead_def lexer_advance_def split: list.splits)

declare multiline_comment_loop.simps [simp del]

definition multiline_comment :: "State \<Rightarrow> Result \<times> State" where
  "multiline_comment st = multiline_comment_loop 0 st"

definition brace :: "State \<Rightarrow> Result \<times> State" where
  "brace st =
     (if PEEK st \<noteq> of_char CHR ''{'' then (res_fail, st)
      else (let st1 = S_ADVANCE st in
            if PEEK st1 \<noteq> of_char CHR ''-'' then (res_fail, st1)
            else multiline_comment (S_ADVANCE st1)))"

definition comment :: "State \<Rightarrow> Result \<times> State" where
  "comment st =
     (if PEEK st = of_char CHR ''-'' then
        (case minus' st of (res, st') \<Rightarrow>
           if finished res then (res, st') else (res_fail, st'))
      else if PEEK st = of_char CHR ''{'' then
        (case brace st of (res, st') \<Rightarrow>
           if finished res then (res, st') else (res_fail, st'))
      else (res_cont, st))"

definition close_layout_in_list :: "State \<Rightarrow> Result \<times> State" where
  "close_layout_in_list st =
     (if PEEK st = of_char CHR '']'' then
        (if symbols st END then (finish END, pop st) else (res_cont, st))
      else if PEEK st = of_char CHR '','' then
        (let st1 = S_ADVANCE st in
         if symbols st1 COMMA then (finish COMMA, MARK st1)
         else (case layout_end st1 of (res, st2) \<Rightarrow>
                 if finished res then (res, st2) else (res_fail, st2)))
      else (res_cont, st))"

definition inline_tokens :: "State \<Rightarrow> Result \<times> State" where
  "inline_tokens st =
     (if PEEK st = of_char CHR ''w'' then
        (case where' st of (res, st') \<Rightarrow>
           if finished res then (res, st') else (res_fail, st'))
      else if PEEK st = of_char CHR ''i'' then
        (case in' st of (res, st') \<Rightarrow>
           if finished res then (res, st') else (res_fail, st'))
      else if PEEK st = of_char CHR ''e'' then
        (case else' st of (res, st') \<Rightarrow>
           if finished res then (res, st') else (res_fail, st'))
      else if PEEK st = of_char CHR '')'' then
        (case layout_end st of (res, st') \<Rightarrow>
           if finished res then (res, st') else (res_fail, st'))
      else close_layout_in_list st)"

definition layout_start :: "32 word \<Rightarrow> State \<Rightarrow> error + (Result \<times> State)" where
  "layout_start column' st =
     (if symbols st START then
        (case push (ucast column') st of
           Inl e \<Rightarrow> Inl e
         | Inr st' \<Rightarrow> Inr (finish START, st'))
      else Inr (res_cont, st))"

definition post_end_semicolon :: "32 word \<Rightarrow> State \<Rightarrow> Result" where
  "post_end_semicolon column' st =
     (if SYM st SEMICOLON \<and> indent_lesseq column' st then finish SEMICOLON else res_cont)"

definition repeat_end :: "32 word \<Rightarrow> State \<Rightarrow> Result \<times> State" where
  "repeat_end column' st =
     (if symbols st END \<and> smaller_indent column' st then layout_end st else (res_cont, st))"

definition newline_indent :: "32 word \<Rightarrow> State \<Rightarrow> Result \<times> State" where
  "newline_indent indent st =
     (case dedent indent st of (res, st1) \<Rightarrow>
        if finished res then (res, st1)
        else (case close_layout_in_list st1 of (res, st2) \<Rightarrow>
                if finished res then (res, st2)
                else (newline_semicolon indent st2, st2)))"

definition newline_token :: "32 word \<Rightarrow> State \<Rightarrow> Result \<times> State" where
  "newline_token indent st =
     (if PEEK st = of_char CHR ''-'' then minus' st
      else if symbolic (PEEK st) \<or> PEEK st = of_char CHR ''`'' then (res_fail, st)
      else if PEEK st = of_char CHR ''i'' then in' st
      else (res_cont, st))"

definition newline :: "32 word \<Rightarrow> State \<Rightarrow> Result \<times> State" where
  "newline indent st =
     (case eof st of (res, st1) \<Rightarrow>
        if finished res then (res, st1)
        else (case comment st1 of (res, st2) \<Rightarrow>
                if finished res then (res, st2)
                else (case newline_token indent st2 of (res, st3) \<Rightarrow>
                        if finished res then (res, st3)
                        else newline_indent indent st3)))"

definition immediate :: "32 word \<Rightarrow> State \<Rightarrow> error + (Result \<times> State)" where
  "immediate column' st =
     (case layout_start column' st of
        Inl e \<Rightarrow> Inl e
      | Inr (res, st1) \<Rightarrow>
          if finished res then Inr (res, st1)
          else (let res = post_end_semicolon column' st1 in
                if finished res then Inr (res, st1)
                else (case repeat_end column' st1 of (res, st2) \<Rightarrow>
                        if finished res then Inr (res, st2)
                        else Inr (inline_tokens st2))))"

definition init :: "(32 word \<Rightarrow> bool) \<Rightarrow> State \<Rightarrow> Result \<times> State" where
  "init iswspace st =
     (case eof st of (res, st1) \<Rightarrow>
        if finished res then (res, st1)
        else (let res = (if after_error st1 then res_fail else res_cont) in
              if finished res then (res, st1)
              else (case dot iswspace st1 of (res, st2) \<Rightarrow>
                      if finished res then (res, st2)
                      else if SYM st2 FOLD then
                        (case fold' st2 of (res, st3) \<Rightarrow>
                           if finished res then (res, st3) else (res_cont, st3))
                      else (res_cont, st2))))"

definition scan_main :: "State \<Rightarrow> error + (Result \<times> State)" where
  "scan_main st =
     (let st1 = skipspace st in
      case eof st1 of (res, st2) \<Rightarrow>
        if finished res then Inr (res, st2)
        else (let st3 = MARK st2 in
              if is_newline (PEEK st3) then
                (case count_indent (S_SKIP st3) of (indent, st4) \<Rightarrow> Inr (newline indent st4))
              else immediate (column st3) st3))"

definition scan_all :: "(32 word \<Rightarrow> bool) \<Rightarrow> State \<Rightarrow> error + (Result \<times> State)" where
  "scan_all iswspace st =
     (case init iswspace st of (res, st1) \<Rightarrow>
        if finished res then Inr (res, st1) else scan_main st1)"

section \<open>Evaluation and the scan entry point\<close>

definition eval :: "(State \<Rightarrow> error + (Result \<times> State)) \<Rightarrow> State \<Rightarrow> error + (bool \<times> State)" where
  "eval chk st =
     (case chk st of
        Inl e \<Rightarrow> Inl e
      | Inr (result, st') \<Rightarrow>
          if finished result \<and> sym result \<noteq> FAIL
          then Inr (True, st'\<lparr>lexer := (lexer st')\<lparr>result_symbol := sym result\<rparr>\<rparr>)
          else Inr (False, st'))"

text \<open>
  \<open>tree_sitter_unison_external_scanner_scan\<close>: the returned flag, the lexer and the
  indent stack after the call.
\<close>

definition scan ::
  "(32 word \<Rightarrow> bool) \<Rightarrow> indent_vec \<Rightarrow> TSLexer \<Rightarrow> (Sym \<Rightarrow> bool)
     \<Rightarrow> error + (bool \<times> TSLexer \<times> indent_vec)" where
  "scan iswspace indents_v lexer' syms =
     (case eval (scan_all iswspace) \<lparr>lexer = lexer', symbols = syms, indents = indents_v\<rparr> of
        Inl e \<Rightarrow> Inl e
      | Inr (res, st) \<Rightarrow> Inr (res, lexer st, indents st))"

section \<open>Notions used in the statements\<close>

text \<open>
  Two ways to write concrete inputs: the array of valid symbols that holds exactly the
  listed symbols, and the code points of a string.
\<close>

definition requested :: "Sym list \<Rightarrow> Sym \<Rightarrow> bool" where
  "requested xs s \<longleftrightarrow> s \<in> set xs"

definition code_points :: "string \<Rightarrow> 32 word list" where
  "code_points s = map of_char s"

text \<open>
  Frame conditions. \<open>same st st'\<close>: the valid symbols and the indent stack are
  untouched. \<open>ok st (res, st')\<close>: a rule started in \<open>st\<close> left the valid symbols alone,
  finished only with a requested symbol or with \<open>COMMENT\<close> or \<open>FOLD\<close>, and either left
  the stack alone, or popped it while finishing with \<open>END\<close> or \<open>IN\<close>, or pushed on it
  while finishing with \<open>START\<close>.
\<close>

definition same :: "State \<Rightarrow> State \<Rightarrow> bool" where
  "same st st' \<longleftrightarrow> symbols st' = symbols st \<and> indents st' = indents st"

definition ok :: "State \<Rightarrow> Result \<times> State \<Rightarrow> bool" where
  "ok st r \<longleftrightarrow>
     (case r of (res, st') \<Rightarrow>
        symbols st' = symbols st \<and>
        (finished res \<and> sym res \<noteq> FAIL \<longrightarrow>
           symbols st (sym res) \<or> sym res = COMMENT \<or> sym res = FOLD) \<and>
        (indents st' = indents st \<or>
         finished res \<and> (sym res = END \<or> sym res = IN) \<and> len (indents st) \<noteq> 0
           \<and> indents st' = VEC_POP (indents st) \<or>
         finished res \<and> sym res = START
           \<and> (\<exists>x. VEC_PUSH (indents st) x = Inr (indents st'))))"

definition okE :: "State \<Rightarrow> error + (Result \<times> State) \<Rightarrow> bool" where
  "okE st r \<longleftrightarrow> (case r of Inl e \<Rightarrow> True | Inr p \<Rightarrow> ok st p)"

text \<open>
  Block comments as the spec writes them, \<^verbatim>\<open>{- (comment-body | nested)* -}\<close>: an item
  is a single code point of the body or a nested comment. \<open>render\<close> is the text of an
  item and \<open>depth\<close> its nesting depth. \<open>item_ok x r\<close> says that the item \<open>x\<close>,
  followed by the text \<open>r\<close>, is read the way the grammar writes it: a body code point is
  not NUL (the lexer's end-of-file value), a body \<^verbatim>\<open>{\<close> is not followed by \<^verbatim>\<open>-\<close> and a body
  \<^verbatim>\<open>-\<close> is not followed by \<^verbatim>\<open>}\<close>, so that the delimiters of the text are exactly those
  of the grammar; braces and dashes that form no delimiter are ordinary body code points.
  A piece is an item or an opener that is never closed; \<open>openers\<close> counts the latter.
  \<open>advance_over p\<close> advances the lexer once for every code point of \<open>p\<close>, and
  \<open>skip_over p\<close> skips once for every code point of \<open>p\<close>.
\<close>

definition opener :: "32 word list" where "opener = map of_char ''{-''"

definition closer :: "32 word list" where "closer = map of_char ''-}''"

definition starts_with :: "32 word \<Rightarrow> 32 word list \<Rightarrow> bool" where
  "starts_with c r \<longleftrightarrow> (case r of [] \<Rightarrow> False | x # xs \<Rightarrow> x = c)"










fun advance_over :: "32 word list \<Rightarrow> State \<Rightarrow> State" where
  "advance_over [] st = st"
| "advance_over (c # p) st = advance_over p (S_ADVANCE st)"


text \<open>
  The \<open>dot\<close> rule asks the C library's \<open>iswspace\<close>, whose answer depends on the locale.
  \<open>isws\<close> above is its value in the C locale. \<open>iswspace_unicode\<close> is its value in a
  Unicode locale, where the space and line separators outside ASCII count as white space
  too.
\<close>

definition iswspace_unicode :: "32 word \<Rightarrow> bool" where
  "iswspace_unicode c \<longleftrightarrow>
     isws c \<or> c \<in> {0x1680, 0x2000, 0x2001, 0x2002, 0x2003, 0x2004, 0x2005, 0x2006, 0x2008,
                    0x2009, 0x200A, 0x2028, 0x2029, 0x205F, 0x3000}"

section \<open>Serialization and deserialization\<close>

lemma u16_bytes_roundtrip: "u16_of_bytes (of_nat (unat w mod 256)) (of_nat (unat w div 256)) = (w :: 16 word)"
proof -
  have b: "unat w < 65536" using unsigned_less [of w, where ?'a = nat] by simp
  have lo: "unat (of_nat (unat w mod 256) :: 8 word) = unat w mod 256"
    by (simp add: unat_of_nat)
  have "unat w div 256 < 256" using b by simp
  then have hi: "unat (of_nat (unat w div 256) :: 8 word) = unat w div 256"
    by (simp add: unat_of_nat)
  show ?thesis
    unfolding u16_of_bytes_def lo hi by simp
qed

lemma words_of_bytes_of: "words_of (bytes_of ws) = ws"
  by (induction ws) (simp_all add: bytes_of_def bytes_of_u16_def u16_bytes_roundtrip)

lemma length_bytes_of: "length (bytes_of ws) = 2 * length ws"
  by (induction ws) (simp_all add: bytes_of_def bytes_of_u16_def)

lemma deserialize_zero: "deserialize vec buffer 0 = Inr vec"
  by (simp add: deserialize_def)

text \<open>
  For a stack of at most \<open>2 ^ 31\<close> entries, \<open>serialize\<close> followed by \<open>deserialize\<close> on
  the same stack gives the entries back: either they were copied and are read again, or
  nothing was copied, the count is 0 and \<open>deserialize\<close> does nothing.
\<close>

lemma serialize_deserialize_roundtrip:
  assumes "len vec \<le> 2 ^ 31"
    and "serialize buffer_size vec buffer = Inr (buffer', n)"
  shows "\<exists>vec'. deserialize vec buffer' (of_nat n) = Inr vec' \<and> data vec' = data vec"
proof -
  consider (wrap) "len vec = 2 ^ 31" | (small) "len vec < 2 ^ 31"
    using assms(1) by linarith
  then show ?thesis
  proof cases
    case wrap
    then have "n = 0" using assms(2)
      by (auto simp: serialize_def Let_def split: if_splits)
    then show ?thesis by (simp add: deserialize_zero)
  next
    case small
    then have tc: "(2 * len vec) mod 2 ^ 32 = 2 * len vec" by simp
    show ?thesis
    proof (cases "2 * len vec \<le> buffer_size \<and> 0 < len vec")
      case False
      then have "n = 0" using assms(2)
        unfolding serialize_def Let_def tc by (auto split: if_splits)
      then show ?thesis by (simp add: deserialize_zero)
    next
      case True
      from assms(2) True have n: "n = 2 * len vec"
        and b': "buffer' = memcpy buffer (bytes_of (data vec)) (2 * len vec)"
        and lb: "2 * len vec \<le> length buffer"
        unfolding serialize_def Let_def tc by (auto split: if_splits)
      have nb: "n < 2 ^ 32" using small n by simp
      have "unat (of_nat n :: 32 word) = n"
        using nb by (simp add: unat_of_nat)
      then have un: "unat (of_nat n :: 32 word) = 2 * len vec"
        using n by simp
      have tk: "take (2 * len vec) buffer' = bytes_of (data vec)"
        by (simp add: b' memcpy_def length_bytes_of len_def)
      have lb': "length buffer' = length buffer"
        using lb by (simp add: b' memcpy_def length_bytes_of len_def)
      show ?thesis
        unfolding deserialize_def Let_def un using True lb lb'
        by (auto simp: tk words_of_bytes_of VEC_GROW_def VEC_RESIZE_def)
    qed
  qed
qed

lemma take2_bytes_of: "0 < n \<Longrightarrow> take 2 (bytes_of (replicate n w)) = bytes_of_u16 w"
  by (cases n) (simp_all add: bytes_of_def bytes_of_u16_def)

text \<open>
  Claim C3. The round trip through \<open>serialize\<close> and \<open>deserialize\<close> does not hold for
  every stack: the byte count is an \<open>unsigned\<close>, so for a stack of \<open>2 ^ 31 + 1\<close> entries
  the product \<open>2 * len\<close> wraps to 2. \<open>serialize\<close> copies one entry and returns 2, and
  \<open>deserialize\<close> with that buffer and count cuts the same stack down to one entry.
\<close>

theorem serialize_deserialize_wraps:
  "serialize 1024 \<lparr>data = replicate 2147483649 7, cap = 2684354560\<rparr> (replicate 1024 0)
     = Inr ([7, 0] @ replicate 1022 0, 2) \<and>
   deserialize \<lparr>data = replicate 2147483649 7, cap = 2684354560\<rparr> ([7, 0] @ replicate 1022 0) 2
     = Inr \<lparr>data = [7], cap = 2684354560\<rparr>"
  by (simp add: serialize_def deserialize_def len_def memcpy_def take2_bytes_of bytes_of_u16_def
      VEC_GROW_def u16_of_bytes_def)

text \<open>
  Claim C9. A \<open>deserialize\<close> call with length 0 returns the stack as it was: the same
  entries (hence the same length) and the same capacity, whatever the stack and the
  buffer hold.
\<close>

theorem deserialize_length_zero: "deserialize vec buffer 0 = Inr vec"
  by (simp add: deserialize_def)

theorem deserialize_length_zero_witness:
  "deserialize \<lparr>data = [4, 2], cap = 20\<rparr> [1, 0, 2, 0] 0 = Inr \<lparr>data = [4, 2], cap = 20\<rparr>"
  by (rule deserialize_length_zero)

text \<open>
  Claim C10. For a stack of length 0, \<open>serialize\<close> leaves the buffer as it is and
  returns 0; it returns the same 0, with the buffer untouched, when the byte count
  exceeds the size of the host buffer. The return value alone does not tell the two
  apart.
\<close>

theorem serialize_empty_or_oversize:
  "(len vec = 0 \<longrightarrow> serialize buffer_size vec buffer = Inr (buffer, 0)) \<and>
   (buffer_size < (2 * len vec) mod 2 ^ 32 \<longrightarrow>
      serialize buffer_size vec buffer = Inr (buffer, 0))"
  by (simp add: serialize_def memcpy_def)

theorem serialize_empty_or_oversize_witness:
  "len create = 0 \<and>
   serialize 1024 create (replicate 1024 0) = Inr (replicate 1024 0, 0) \<and>
   1024 < (2 * len \<lparr>data = replicate 513 7, cap = 640\<rparr>) mod 2 ^ 32 \<and>
   serialize 1024 \<lparr>data = replicate 513 7, cap = 640\<rparr> (replicate 1024 0)
     = Inr (replicate 1024 0, 0)"
  using serialize_empty_or_oversize [of create 1024 "replicate 1024 0"]
    serialize_empty_or_oversize [of "\<lparr>data = replicate 513 7, cap = 640\<rparr>" 1024 "replicate 1024 0"]
  by (simp add: len_def create_def)

section \<open>Facts about the lexer\<close>

lemma rest_S_ADVANCE: "rest (lexer st) = c # r \<Longrightarrow> rest (lexer (S_ADVANCE st)) = r"
  by (simp add: S_ADVANCE_def lexer_advance_def)

lemma PEEK_Cons: "rest (lexer st) = c # r \<Longrightarrow> PEEK st = c"
  by (simp add: PEEK_def lookahead_def)


lemma is_eof_rest: "is_eof st \<longleftrightarrow> rest (lexer st) = []"
  by (simp add: is_eof_def lexer_eof_def)

lemma rest_MARK [simp]: "rest (lexer (MARK st)) = rest (lexer st)"
  by (simp add: MARK_def mark_end_def)

lemma rest_S_SKIP: "rest (lexer st) = c # r \<Longrightarrow> rest (lexer (S_SKIP st)) = r"
  by (simp add: S_SKIP_def lexer_advance_def)

lemma skipspace_stop:
  "PEEK st \<noteq> 0x20 \<Longrightarrow> PEEK st \<noteq> 0x09 \<Longrightarrow> skipspace st = st"
  by (subst skipspace.simps) simp

lemma count_indent_stop:
  "\<not> is_newline (PEEK st) \<Longrightarrow> PEEK st \<noteq> 0x20 \<Longrightarrow> PEEK st \<noteq> 0x09 \<Longrightarrow>
   count_indent_loop indent st = (indent, st)"
  by (subst count_indent_loop.simps) simp

section \<open>End of file, the error check and the dot\<close>

lemma eof_at_eof:
  "is_eof st \<Longrightarrow> eof st =
     (if SYM st EMPTY then (finish EMPTY, st)
      else if SYM st END then (finish END, pop st)
      else if SYM st SEMICOLON then (finish SEMICOLON, st)
      else (res_fail, st))"
  by (simp add: eof_def end_or_semicolon_def layout_end_def finish_if_valid_def finish_def
      res_finish_def res_cont_def res_fail_def)

lemma eof_not_eof: "\<not> is_eof st \<Longrightarrow> eof st = (res_cont, st)"
  by (simp add: eof_def)

lemma scan_at_eof:
  "lexer_eof l \<Longrightarrow> scan iswspace vec l syms =
     (if syms EMPTY then Inr (True, l\<lparr>result_symbol := EMPTY\<rparr>, vec)
      else if syms END then Inr (True, l\<lparr>result_symbol := END\<rparr>, if len vec \<noteq> 0 then VEC_POP vec else vec)
      else if syms SEMICOLON then Inr (True, l\<lparr>result_symbol := SEMICOLON\<rparr>, vec)
      else Inr (False, l, vec))"
  by (simp add: scan_def eval_def scan_all_def init_def eof_at_eof is_eof_def SYM_def pop_def
      indent_exists_def finish_def res_finish_def res_fail_def)

lemma pop_butlast:
  "pop st = st\<lparr>indents := (indents st)\<lparr>data := butlast (data (indents st))\<rparr>\<rparr>"
  by (cases "data (indents st)") (simp_all add: pop_def indent_exists_def len_def VEC_POP_def)

lemma eof_concrete:
  "is_eof st \<Longrightarrow> eof st =
      (if symbols st EMPTY then (\<lparr>sym = EMPTY, finished = True\<rparr>, st)
       else if symbols st END
         then (\<lparr>sym = END, finished = True\<rparr>,
               st\<lparr>indents := (indents st)\<lparr>data := butlast (data (indents st))\<rparr>\<rparr>)
       else if symbols st SEMICOLON then (\<lparr>sym = SEMICOLON, finished = True\<rparr>, st)
       else (\<lparr>sym = FAIL, finished = True\<rparr>, st))"
  by (simp add: eof_def end_or_semicolon_def layout_end_def finish_if_valid_def finish_def
      res_finish_def res_cont_def res_fail_def SYM_def pop_butlast)

lemma scan_eof_concrete:
  "lexer_eof l \<Longrightarrow> scan iswspace vec l syms =
      (if syms EMPTY then Inr (True, l\<lparr>result_symbol := EMPTY\<rparr>, vec)
       else if syms END
         then Inr (True, l\<lparr>result_symbol := END\<rparr>, vec\<lparr>data := butlast (data vec)\<rparr>)
       else if syms SEMICOLON then Inr (True, l\<lparr>result_symbol := SEMICOLON\<rparr>, vec)
       else Inr (False, l, vec))"
  by (simp add: scan_def eval_def scan_all_def init_def eof_concrete is_eof_def)

text \<open>
  Claim C5. At end of file the \<open>eof\<close> rule emits \<open>EMPTY\<close> if it is requested and leaves
  the state as it is; otherwise, if \<open>END\<close> is requested, it emits \<open>END\<close> and drops the top
  entry of the stack (an empty stack stays empty); otherwise it emits \<open>SEMICOLON\<close> if that
  is requested; otherwise it fails. \<open>init\<close> runs this rule first, so a scan at end of file
  returns exactly that, and returns false in the last case. With \<open>EMPTY\<close> requested the
  call returns true with the one result symbol \<open>EMPTY\<close>, consumes nothing and leaves the
  stack, empty or not, as it was. ``Exactly once'' is read for one call of scan: the call
  emits one symbol, and the scanner keeps no record of having emitted it.
\<close>

theorem eof_rule:
  "(is_eof st \<longrightarrow> eof st =
      (if symbols st EMPTY then (\<lparr>sym = EMPTY, finished = True\<rparr>, st)
       else if symbols st END
         then (\<lparr>sym = END, finished = True\<rparr>,
               st\<lparr>indents := (indents st)\<lparr>data := butlast (data (indents st))\<rparr>\<rparr>)
       else if symbols st SEMICOLON then (\<lparr>sym = SEMICOLON, finished = True\<rparr>, st)
       else (\<lparr>sym = FAIL, finished = True\<rparr>, st))) \<and>
   (rest l = [] \<longrightarrow> scan iswspace vec l syms =
      (if syms EMPTY then Inr (True, l\<lparr>result_symbol := EMPTY\<rparr>, vec)
       else if syms END
         then Inr (True, l\<lparr>result_symbol := END\<rparr>, vec\<lparr>data := butlast (data vec)\<rparr>)
       else if syms SEMICOLON then Inr (True, l\<lparr>result_symbol := SEMICOLON\<rparr>, vec)
       else Inr (False, l, vec)))"
  using eof_concrete [of st] scan_eof_concrete [of l iswspace vec syms]
  by (simp add: lexer_eof_def)

theorem eof_rule_witness:
  "scan isws \<lparr>data = [], cap = 0\<rparr> (lexer_at []) (requested [EMPTY]) =
     Inr (True,
          \<lparr>rest = [], pos = 0, col = 0, token_start = 0, token_end = None, result_symbol = EMPTY\<rparr>,
          \<lparr>data = [], cap = 0\<rparr>) \<and>
   scan isws \<lparr>data = [2, 4], cap = 20\<rparr> (lexer_at []) (requested [EMPTY, END, SEMICOLON]) =
     Inr (True,
          \<lparr>rest = [], pos = 0, col = 0, token_start = 0, token_end = None, result_symbol = EMPTY\<rparr>,
          \<lparr>data = [2, 4], cap = 20\<rparr>) \<and>
   scan isws \<lparr>data = [2, 4], cap = 20\<rparr> (lexer_at []) (requested [END, SEMICOLON]) =
     Inr (True,
          \<lparr>rest = [], pos = 0, col = 0, token_start = 0, token_end = None, result_symbol = END\<rparr>,
          \<lparr>data = [2], cap = 20\<rparr>) \<and>
   scan isws \<lparr>data = [2, 4], cap = 20\<rparr> (lexer_at []) (requested [SEMICOLON]) =
     Inr (True,
          \<lparr>rest = [], pos = 0, col = 0, token_start = 0, token_end = None,
             result_symbol = SEMICOLON\<rparr>,
          \<lparr>data = [2, 4], cap = 20\<rparr>) \<and>
   scan isws \<lparr>data = [2, 4], cap = 20\<rparr> (lexer_at []) (requested [START, COMMENT]) =
     Inr (False,
          \<lparr>rest = [], pos = 0, col = 0, token_start = 0, token_end = None, result_symbol = FAIL\<rparr>,
          \<lparr>data = [2, 4], cap = 20\<rparr>) \<and>
   eof \<lparr>lexer = lexer_at [], symbols = requested [END], indents = \<lparr>data = [2, 4], cap = 20\<rparr>\<rparr> =
     (\<lparr>sym = END, finished = True\<rparr>,
      \<lparr>lexer = lexer_at [], symbols = requested [END], indents = \<lparr>data = [2], cap = 20\<rparr>\<rparr>)"
  using eof_rule [of "\<lparr>lexer = lexer_at [], symbols = requested [END], indents = \<lparr>data = [2, 4], cap = 20\<rparr>\<rparr>"
      "lexer_at []" isws "\<lparr>data = [], cap = 0\<rparr>" "requested [EMPTY]"]
    eof_rule [of "\<lparr>lexer = lexer_at [], symbols = requested [END], indents = \<lparr>data = [2, 4], cap = 20\<rparr>\<rparr>"
      "lexer_at []" isws "\<lparr>data = [2, 4], cap = 20\<rparr>" "requested [EMPTY, END, SEMICOLON]"]
    eof_rule [of "\<lparr>lexer = lexer_at [], symbols = requested [END], indents = \<lparr>data = [2, 4], cap = 20\<rparr>\<rparr>"
      "lexer_at []" isws "\<lparr>data = [2, 4], cap = 20\<rparr>" "requested [END, SEMICOLON]"]
    eof_rule [of "\<lparr>lexer = lexer_at [], symbols = requested [END], indents = \<lparr>data = [2, 4], cap = 20\<rparr>\<rparr>"
      "lexer_at []" isws "\<lparr>data = [2, 4], cap = 20\<rparr>" "requested [SEMICOLON]"]
    eof_rule [of "\<lparr>lexer = lexer_at [], symbols = requested [END], indents = \<lparr>data = [2, 4], cap = 20\<rparr>\<rparr>"
      "lexer_at []" isws "\<lparr>data = [2, 4], cap = 20\<rparr>" "requested [START, COMMENT]"]
  by (simp add: is_eof_def lexer_eof_def lexer_at_def requested_def)

text \<open>
  Claim C2. When all symbols from \<open>SEMICOLON\<close> through \<open>EMPTY\<close> are requested and the
  lexer is not at end of file, scan returns false and changes neither the lexer nor the
  indent stack. At end of file the \<open>eof\<close> rule runs before the error check: scan then
  returns true with \<open>EMPTY\<close>, and the stack is unchanged there too.
\<close>

theorem scan_after_error:
  "all_syms syms \<Longrightarrow> scan iswspace vec l syms =
     (if lexer_eof l then Inr (True, l\<lparr>result_symbol := EMPTY\<rparr>, vec) else Inr (False, l, vec))"
  apply (cases "lexer_eof l")
   apply (simp add: scan_at_eof all_syms_def syms_upto_EMPTY_def)
  apply (simp add: scan_def eval_def scan_all_def init_def eof_not_eof is_eof_def after_error_def res_fail_def res_cont_def)
  done

theorem scan_after_error_witness:
  "all_syms (requested syms_upto_EMPTY) \<and>
   \<not> lexer_eof (lexer_at (code_points ''x'')) \<and>
   scan isws \<lparr>data = [1, 2], cap = 20\<rparr> (lexer_at (code_points ''x''))
       (requested syms_upto_EMPTY)
     = Inr (False, lexer_at (code_points ''x''), \<lparr>data = [1, 2], cap = 20\<rparr>) \<and>
   lexer_eof (lexer_at []) \<and>
   scan isws \<lparr>data = [1, 2], cap = 20\<rparr> (lexer_at []) (requested syms_upto_EMPTY)
     = Inr (True, (lexer_at [])\<lparr>result_symbol := EMPTY\<rparr>, \<lparr>data = [1, 2], cap = 20\<rparr>)"
proof -
  have a: "all_syms (requested syms_upto_EMPTY)"
    by (simp add: all_syms_def syms_upto_EMPTY_def requested_def)
  show ?thesis
    using a scan_after_error [OF a, of isws "\<lparr>data = [1, 2], cap = 20\<rparr>" "lexer_at (code_points ''x'')"]
      scan_after_error [OF a, of isws "\<lparr>data = [1, 2], cap = 20\<rparr>" "lexer_at []"]
    by (simp add: lexer_eof_def lexer_at_def code_points_def)
qed

text \<open>
  The claim as stated, with end of file included, fails: at end of file with every
  symbol requested the scan succeeds with \<open>EMPTY\<close>.
\<close>

theorem scan_after_error_at_eof:
  "all_syms (requested syms_upto_EMPTY) \<and>
   scan isws \<lparr>data = [1, 2], cap = 20\<rparr> (lexer_at []) (requested syms_upto_EMPTY) =
     Inr (True,
          \<lparr>rest = [], pos = 0, col = 0, token_start = 0, token_end = None, result_symbol = EMPTY\<rparr>,
          \<lparr>data = [1, 2], cap = 20\<rparr>)"
  by code_simp

lemma S_ADVANCE_Cons:
  "rest (lexer st) = c # r \<Longrightarrow> c \<noteq> 0x0A \<Longrightarrow>
   S_ADVANCE st =
     st\<lparr>lexer := (lexer st)\<lparr>rest := r, pos := pos (lexer st) + 1, col := col (lexer st) + 1\<rparr>\<rparr>"
  by (simp add: S_ADVANCE_def lexer_advance_def)

text \<open>
  Claim C7. When \<open>DOT\<close> is requested and the next character is a dot, the \<open>dot\<close> rule
  consumes the dot: the lexer moves one position and one column on. If \<open>VARSYM\<close> is
  requested too and the C library's \<open>iswspace\<close> accepts the following character (NUL at
  end of file), the rule emits \<open>VARSYM\<close> and marks nothing; otherwise it marks the token
  end right after the dot and emits \<open>DOT\<close>. Where \<open>iswspace\<close> accepts, of the character
  after the dot, exactly space, form feed, line feed, carriage return, tab and vertical
  tab, as it does in the C locale, the test is membership in these six characters.
\<close>

theorem dot_rule:
  assumes "symbols st DOT" and "rest (lexer st) = 0x2E # r"
  shows "dot iswspace st =
     (if symbols st VARSYM \<and> iswspace (case r of [] \<Rightarrow> 0 | c # cs \<Rightarrow> c)
      then (\<lparr>sym = VARSYM, finished = True\<rparr>,
            st\<lparr>lexer := (lexer st)\<lparr>rest := r, pos := pos (lexer st) + 1,
                                    col := col (lexer st) + 1\<rparr>\<rparr>)
      else (\<lparr>sym = DOT, finished = True\<rparr>,
            st\<lparr>lexer := (lexer st)\<lparr>rest := r, pos := pos (lexer st) + 1,
                                    col := col (lexer st) + 1,
                                    token_end := Some (pos (lexer st) + 1)\<rparr>\<rparr>)) \<and>
    ((iswspace (case r of [] \<Rightarrow> 0 | c # cs \<Rightarrow> c) \<longleftrightarrow>
          (case r of [] \<Rightarrow> 0 | c # cs \<Rightarrow> c) \<in> {0x20, 0x0C, 0x0A, 0x0D, 0x09, 0x0B}) \<longrightarrow>
     dot iswspace st =
     (if symbols st VARSYM \<and>
         (case r of [] \<Rightarrow> 0 | c # cs \<Rightarrow> c) \<in> {0x20, 0x0C, 0x0A, 0x0D, 0x09, 0x0B}
      then (\<lparr>sym = VARSYM, finished = True\<rparr>,
            st\<lparr>lexer := (lexer st)\<lparr>rest := r, pos := pos (lexer st) + 1,
                                    col := col (lexer st) + 1\<rparr>\<rparr>)
      else (\<lparr>sym = DOT, finished = True\<rparr>,
            st\<lparr>lexer := (lexer st)\<lparr>rest := r, pos := pos (lexer st) + 1,
                                    col := col (lexer st) + 1,
                                    token_end := Some (pos (lexer st) + 1)\<rparr>\<rparr>)))"
proof -
  let ?st1 = "st\<lparr>lexer := (lexer st)\<lparr>rest := r, pos := pos (lexer st) + 1,
                                    col := col (lexer st) + 1\<rparr>\<rparr>"
  have a: "S_ADVANCE st = ?st1" using assms(2) by (rule S_ADVANCE_Cons) simp
  have p: "PEEK st = 0x2E" using assms(2) by (rule PEEK_Cons)
  have q: "PEEK ?st1 = (case r of [] \<Rightarrow> 0 | c # cs \<Rightarrow> c)"
    by (simp add: PEEK_def lookahead_def)
  have m: "MARK ?st1 = st\<lparr>lexer := (lexer st)\<lparr>rest := r, pos := pos (lexer st) + 1,
                                    col := col (lexer st) + 1,
                                    token_end := Some (pos (lexer st) + 1)\<rparr>\<rparr>"
    by (simp add: MARK_def mark_end_def)
  have g: "dot iswspace st =
     (if symbols st VARSYM \<and> iswspace (case r of [] \<Rightarrow> 0 | c # cs \<Rightarrow> c)
      then (\<lparr>sym = VARSYM, finished = True\<rparr>, ?st1)
      else (\<lparr>sym = DOT, finished = True\<rparr>,
            st\<lparr>lexer := (lexer st)\<lparr>rest := r, pos := pos (lexer st) + 1,
                                    col := col (lexer st) + 1,
                                    token_end := Some (pos (lexer st) + 1)\<rparr>\<rparr>))"
    using assms(1)
    unfolding dot_def Let_def a p SYM_def q m
    by (simp add: finish_def res_finish_def)
  show ?thesis unfolding g by simp
qed

theorem dot_rule_witness:
  "dot iswspace_unicode
      \<lparr>lexer = lexer_at [0x2E, 0x20, 0x79], symbols = requested [DOT, VARSYM], indents = create\<rparr> =
     (\<lparr>sym = VARSYM, finished = True\<rparr>,
      \<lparr>lexer = \<lparr>rest = [0x20, 0x79], pos = 1, col = 1, token_start = 0, token_end = None,
                 result_symbol = FAIL\<rparr>,
         symbols = requested [DOT, VARSYM], indents = create\<rparr>) \<and>
   dot iswspace_unicode
      \<lparr>lexer = lexer_at [0x2E, 0x79], symbols = requested [DOT, VARSYM], indents = create\<rparr> =
     (\<lparr>sym = DOT, finished = True\<rparr>,
      \<lparr>lexer = \<lparr>rest = [0x79], pos = 1, col = 1, token_start = 0, token_end = Some 1,
                 result_symbol = FAIL\<rparr>,
         symbols = requested [DOT, VARSYM], indents = create\<rparr>) \<and>
   dot iswspace_unicode
      \<lparr>lexer = lexer_at [0x2E, 0x20, 0x79], symbols = requested [DOT], indents = create\<rparr> =
     (\<lparr>sym = DOT, finished = True\<rparr>,
      \<lparr>lexer = \<lparr>rest = [0x20, 0x79], pos = 1, col = 1, token_start = 0, token_end = Some 1,
                 result_symbol = FAIL\<rparr>,
         symbols = requested [DOT], indents = create\<rparr>) \<and>
   dot isws
      \<lparr>lexer = lexer_at [0x2E, 0x2003], symbols = requested [DOT, VARSYM], indents = create\<rparr> =
     (\<lparr>sym = DOT, finished = True\<rparr>,
      \<lparr>lexer = \<lparr>rest = [0x2003], pos = 1, col = 1, token_start = 0, token_end = Some 1,
                 result_symbol = FAIL\<rparr>,
         symbols = requested [DOT, VARSYM], indents = create\<rparr>)"
proof -
  have d: "requested [DOT, VARSYM] DOT" "requested [DOT, VARSYM] VARSYM" "requested [DOT] DOT"
    "\<not> requested [DOT] VARSYM"
    by (simp_all add: requested_def)
  have w: "iswspace_unicode 0x20" "\<not> iswspace_unicode 0x79" "\<not> isws 0x2003"
    by (simp_all add: iswspace_unicode_def isws_def)
  show ?thesis
    using dot_rule [where iswspace = iswspace_unicode and r = "[0x20, 0x79]"
        and st = "\<lparr>lexer = lexer_at [0x2E, 0x20, 0x79], symbols = requested [DOT, VARSYM], indents = create\<rparr>"]
      dot_rule [where iswspace = iswspace_unicode and r = "[0x79]"
        and st = "\<lparr>lexer = lexer_at [0x2E, 0x79], symbols = requested [DOT, VARSYM], indents = create\<rparr>"]
      dot_rule [where iswspace = iswspace_unicode and r = "[0x20, 0x79]"
        and st = "\<lparr>lexer = lexer_at [0x2E, 0x20, 0x79], symbols = requested [DOT], indents = create\<rparr>"]
      dot_rule [where iswspace = isws and r = "[0x2003]"
        and st = "\<lparr>lexer = lexer_at [0x2E, 0x2003], symbols = requested [DOT, VARSYM], indents = create\<rparr>"]
    by (simp add: d w lexer_at_def)
qed

text \<open>
  The claim as stated, with white space fixed to the six characters, fails in a Unicode
  locale: U+2003 (em space) is none of the six, \<open>iswspace\<close> accepts it, and with \<open>DOT\<close>
  and \<open>VARSYM\<close> requested a scan at a dot before it emits \<open>VARSYM\<close>, not \<open>DOT\<close>.
\<close>

theorem dot_rule_unicode_space:
  "\<not> isws 0x2003 \<and> iswspace_unicode 0x2003 \<and>
   scan iswspace_unicode create (lexer_at [0x2E, 0x2003, 0x79]) (requested [DOT, VARSYM]) =
     Inr (True,
          \<lparr>rest = [0x2003, 0x79], pos = 1, col = 1, token_start = 0, token_end = None,
             result_symbol = VARSYM\<rparr>,
          create)"
  by code_simp

section \<open>What a rule may emit and do to the stack\<close>

lemma same_refl [simp]: "same st st" by (simp add: same_def)

lemma same_trans: "same a b \<Longrightarrow> same b c \<Longrightarrow> same a c" by (simp add: same_def)

lemma same_S_ADVANCE [simp]: "same st (S_ADVANCE st)" by (simp add: same_def S_ADVANCE_def)

lemma same_S_SKIP [simp]: "same st (S_SKIP st)" by (simp add: same_def S_SKIP_def)

lemma same_MARK [simp]: "same st (MARK st)" by (simp add: same_def MARK_def)

lemma same_skipspace: "same st (skipspace st)"
proof (induction st rule: skipspace.induct)
  case (1 st)
  show ?case
  proof (cases "PEEK st = of_char CHR '' '' \<or> PEEK st = of_char (CHR 0x09)")
    case True
    then have "skipspace st = skipspace (S_SKIP st)" by (subst skipspace.simps) simp
    moreover have "same (S_SKIP st) (skipspace (S_SKIP st))" using 1 True by simp
    ultimately show ?thesis using same_trans [OF same_S_SKIP] by simp
  next
    case False
    then have "skipspace st = st" by (subst skipspace.simps) simp
    then show ?thesis by simp
  qed
qed

lemma same_advance_to_eof: "same st (advance_to_eof st)"
proof (induction st rule: advance_to_eof.induct)
  case (1 st)
  show ?case
  proof (cases "is_eof st")
    case True
    then have "advance_to_eof st = st" by (subst advance_to_eof.simps) simp
    then show ?thesis by simp
  next
    case False
    then have "advance_to_eof st = advance_to_eof (S_ADVANCE st)"
      by (subst advance_to_eof.simps) simp
    moreover have "same (S_ADVANCE st) (advance_to_eof (S_ADVANCE st))" using 1 False by simp
    ultimately show ?thesis using same_trans [OF same_S_ADVANCE] by simp
  qed
qed

lemma same_seq: "same st (snd (seq s st))"
proof (induction s arbitrary: st)
  case Nil
  then show ?case by simp
next
  case (Cons c s)
  show ?case using same_trans [OF same_S_ADVANCE Cons [of "S_ADVANCE st"]] by simp
qed

lemma same_token: "same st (snd (token s st))"
  using same_seq [of st s] by (cases "seq s st") (simp add: token_def)

lemma same_count_indent_loop: "same st (snd (count_indent_loop indent st))"
proof (induction indent st rule: count_indent_loop.induct)
  case (1 indent st)
  have step: "\<And>i. same (S_SKIP st) (snd (count_indent_loop i (S_SKIP st))) \<Longrightarrow>
      same st (snd (count_indent_loop i (S_SKIP st)))"
    using same_trans [OF same_S_SKIP] by blast
  show ?case
    by (subst count_indent_loop.simps) (auto intro!: step 1)
qed

lemma same_pop_ok: "ok st (res_finish END, pop st)" if "symbols st END"
  using that by (simp add: ok_def pop_def indent_exists_def res_finish_def)

lemma ok_same: "same st st' \<Longrightarrow> ok st (res_cont, st')"
  by (simp add: ok_def same_def res_cont_def)

lemma ok_fail: "same st st' \<Longrightarrow> ok st (res_fail, st')"
  by (simp add: ok_def same_def res_fail_def)

lemma ok_finish: "same st st' \<Longrightarrow> symbols st s \<or> s = COMMENT \<or> s = FOLD \<Longrightarrow> ok st (finish s, st')"
  by (auto simp: ok_def same_def finish_def res_finish_def)

lemma ok_same_left: "same st st1 \<Longrightarrow> ok st1 r \<Longrightarrow> ok st r"
  by (cases r) (simp add: ok_def same_def)

lemma ok_unfinished: "ok st (res, st1) \<Longrightarrow> \<not> finished res \<Longrightarrow> same st st1"
  by (auto simp: ok_def same_def)

lemma ok_bind:
  assumes "ok st (f st)"
    and "\<And>res st1. f st = (res, st1) \<Longrightarrow> \<not> finished res \<Longrightarrow> ok st1 (g res st1)"
  shows "ok st (case f st of (res, st1) \<Rightarrow> if finished res then (res, st1) else g res st1)"
proof (cases "f st")
  case (Pair res st1)
  show ?thesis
  proof (cases "finished res")
    case True
    then show ?thesis using assms(1) Pair by simp
  next
    case False
    have "same st st1" using assms(1) Pair False by (simp add: ok_unfinished)
    then have "ok st (g res st1)" using assms(2) [OF Pair False] by (rule ok_same_left)
    then show ?thesis using Pair False by simp
  qed
qed

lemma ok_short:
  assumes "ok st (f st)"
  shows "ok st (case f st of (res, st1) \<Rightarrow> if finished res then (res, st1) else (res_fail, st1))"
  using assms by (rule ok_bind) (simp add: ok_fail)

lemma layout_end_ok: "ok st (layout_end st)"
  by (simp add: layout_end_def SYM_def ok_same finish_def same_pop_ok)

lemma end_or_semicolon_ok: "ok st (end_or_semicolon st)"
  unfolding end_or_semicolon_def
  by (rule ok_bind [OF layout_end_ok]) (simp add: finish_if_valid_def SYM_def ok_finish ok_same)

lemma eof_ok: "ok st (eof st)"
  unfolding eof_def using ok_short [of st end_or_semicolon, OF end_or_semicolon_ok]
  by (simp add: SYM_def ok_finish ok_same)

lemma dot_ok: "ok st (dot iswspace st)"
  by (simp add: dot_def Let_def SYM_def ok_finish ok_same same_def S_ADVANCE_def MARK_def)

lemma fold_ok: "ok st (fold' st)"
proof -
  have "same st (MARK (advance_to_eof (snd (seq ''---'' st))))"
    by (rule same_trans [OF same_trans [OF same_seq same_advance_to_eof] same_MARK])
  then show ?thesis
    using same_seq [of st "''---''"]
    by (cases "seq ''---'' st") (simp add: fold'_def ok_finish ok_same del: seq.simps)
qed

lemma dedent_ok: "ok st (dedent indent st)"
  by (simp add: dedent_def layout_end_ok ok_same)

lemma repeat_end_ok: "ok st (repeat_end c st)"
  by (simp add: repeat_end_def layout_end_ok ok_same)

lemma where_ok: "ok st (where' st)"
proof (cases "token ''where'' st")
  case (Pair b st1)
  then have s: "same st st1" using same_token [of st "''where''"] by simp
  have m: "same st (MARK st1)" by (rule same_trans [OF s same_MARK])
  have e: "ok st (layout_end st1)" by (rule ok_same_left [OF s layout_end_ok])
  have y: "symbols st1 = symbols st" using s by (simp add: same_def)
  show ?thesis using Pair s m e
    by (simp add: where'_def SYM_def y ok_same ok_finish)
qed

lemma in_ok: "ok st (in' st)"
proof (cases "token ''in'' st")
  case (Pair b st1)
  then have s: "same st st1" using same_token [of st "''in''"] by simp
  have "ok st (finish IN, pop (MARK st1))" if "symbols st IN"
    using s that
    by (simp add: ok_def same_def pop_def MARK_def finish_def res_finish_def indent_exists_def)
  then show ?thesis using Pair s
    by (simp add: in'_def SYM_def ok_same)
qed

lemma else_ok: "ok st (else' st)"
proof (cases "token ''else'' st")
  case (Pair b st1)
  then have s: "same st st1" using same_token [of st "''else''"] by simp
  have e: "ok st (layout_end st1)" by (rule ok_same_left [OF s layout_end_ok])
  show ?thesis using Pair s e
    by (simp add: else'_def ok_same)
qed

lemma inline_comment_ok: "ok st (inline_comment st)"
proof (induction st rule: inline_comment.induct)
  case (1 st)
  show ?case
  proof (cases "is_newline (PEEK st) \<or> PEEK st = 0")
    case True
    then have "inline_comment st = (finish COMMENT, MARK st)"
      by (subst inline_comment.simps) simp
    then show ?thesis by (simp add: ok_finish)
  next
    case False
    then have "inline_comment st = inline_comment (S_ADVANCE st)"
      by (subst inline_comment.simps) simp
    moreover have "ok (S_ADVANCE st) (inline_comment (S_ADVANCE st))" using 1 False by simp
    ultimately show ?thesis using ok_same_left [OF same_S_ADVANCE] by simp
  qed
qed

lemma minus_ok: "ok st (minus' st)"
proof (cases "seq ''--'' st")
  case (Pair b st1)
  then have s: "same st st1" using same_seq [of st "''--''"] by (simp del: seq.simps)
  have s2: "same st (S_ADVANCE st1)" by (rule same_trans [OF s same_S_ADVANCE])
  have s3: "same st (MARK (advance_to_eof (S_ADVANCE st1)))"
    by (rule same_trans [OF same_trans [OF s2 same_advance_to_eof] same_MARK])
  have c: "ok st (inline_comment st1)" by (rule ok_same_left [OF s inline_comment_ok])
  have "minus' st = (if \<not> b then (res_cont, st1)
        else if PEEK st1 = of_char CHR ''-'' then
          (let st2 = S_ADVANCE st1 in
           if is_eof st2 \<or> is_newline (PEEK st2)
           then (finish FOLD, MARK (advance_to_eof st2))
           else (res_fail, st2))
        else inline_comment st1)"
    unfolding minus'_def Pair by simp
  then show ?thesis using s s2 s3 c
    by (simp add: Let_def ok_same ok_fail ok_finish)
qed

lemma multiline_comment_loop_ok: "ok st (multiline_comment_loop level st)"
proof (induction level st rule: multiline_comment_loop.induct)
  case (1 level st)
  let ?st1 = "S_ADVANCE st"
  let ?st2 = "S_ADVANCE ?st1"
  have s1: "same st ?st1" by simp
  have s2: "same st ?st2" using same_trans [OF s1 same_S_ADVANCE] .
  consider (open2) "PEEK st = of_char CHR ''{''" "PEEK ?st1 = of_char CHR ''-''"
    | (open1) "PEEK st = of_char CHR ''{''" "PEEK ?st1 \<noteq> of_char CHR ''-''"
    | (close0) "PEEK st = of_char CHR ''-''" "PEEK ?st1 = of_char CHR ''}''" "level = 0"
    | (close2) "PEEK st = of_char CHR ''-''" "PEEK ?st1 = of_char CHR ''}''" "level \<noteq> 0"
    | (close1) "PEEK st = of_char CHR ''-''" "PEEK ?st1 \<noteq> of_char CHR ''}''"
    | (nul) "PEEK st = 0"
    | (other) "PEEK st \<noteq> of_char CHR ''{''" "PEEK st \<noteq> of_char CHR ''-''" "PEEK st \<noteq> 0"
    by fastforce
  then show ?case
  proof cases
    case open2
    then have "multiline_comment_loop level st = multiline_comment_loop (level + 1) ?st2"
      by (subst multiline_comment_loop.simps) (simp add: Let_def)
    moreover have "ok ?st2 (multiline_comment_loop (level + 1) ?st2)"
      using "1.IH"(1) open2 by simp
    ultimately show ?thesis using ok_same_left [OF s2] by simp
  next
    case open1
    then have "multiline_comment_loop level st = multiline_comment_loop level ?st1"
      by (subst multiline_comment_loop.simps) (simp add: Let_def)
    moreover have "ok ?st1 (multiline_comment_loop level ?st1)"
      using "1.IH"(2) open1 by simp
    ultimately show ?thesis using ok_same_left [OF s1] by simp
  next
    case close0
    then have "multiline_comment_loop level st = multiline_comment_success ?st2"
      by (subst multiline_comment_loop.simps) (simp add: Let_def)
    moreover have "same st (MARK ?st2)" using same_trans [OF s2 same_MARK] .
    ultimately show ?thesis by (simp add: multiline_comment_success_def ok_finish)
  next
    case close2
    then have "multiline_comment_loop level st = multiline_comment_loop (level - 1) ?st2"
      by (subst multiline_comment_loop.simps) (simp add: Let_def)
    moreover have "ok ?st2 (multiline_comment_loop (level - 1) ?st2)"
      using "1.IH"(3) close2 by simp
    ultimately show ?thesis using ok_same_left [OF s2] by simp
  next
    case close1
    then have "multiline_comment_loop level st = multiline_comment_loop level ?st1"
      by (subst multiline_comment_loop.simps) (simp add: Let_def)
    moreover have "ok ?st1 (multiline_comment_loop level ?st1)"
      using "1.IH"(4) close1 by simp
    ultimately show ?thesis using ok_same_left [OF s1] by simp
  next
    case nul
    then have "multiline_comment_loop level st =
        (case eof st of (res, st') \<Rightarrow> if finished res then (res, st') else (res_fail, st'))"
      by (subst multiline_comment_loop.simps) simp
    then show ?thesis using ok_short [of st eof, OF eof_ok] by simp
  next
    case other
    then have "multiline_comment_loop level st = multiline_comment_loop level ?st1"
      by (subst multiline_comment_loop.simps) simp
    moreover have "ok ?st1 (multiline_comment_loop level ?st1)"
      using "1.IH"(5) other by simp
    ultimately show ?thesis using ok_same_left [OF s1] by simp
  qed
qed

lemma brace_ok: "ok st (brace st)"
proof -
  have "same st (S_ADVANCE (S_ADVANCE st))"
    by (rule same_trans [OF same_S_ADVANCE same_S_ADVANCE])
  then have "ok st (multiline_comment_loop 0 (S_ADVANCE (S_ADVANCE st)))"
    using multiline_comment_loop_ok by (rule ok_same_left)
  then show ?thesis
    by (simp add: brace_def Let_def multiline_comment_def ok_fail)
qed

lemma comment_ok: "ok st (comment st)"
  unfolding comment_def
  using ok_short [of st minus', OF minus_ok] ok_short [of st brace, OF brace_ok]
  by (simp add: ok_same)

lemma close_layout_in_list_ok: "ok st (close_layout_in_list st)"
proof -
  let ?st1 = "S_ADVANCE st"
  have a: "ok st (case layout_end ?st1 of (res, st2) \<Rightarrow>
                 if finished res then (res, st2) else (res_fail, st2))"
    using ok_same_left [OF same_S_ADVANCE ok_short [of ?st1 layout_end, OF layout_end_ok]] .
  have m: "same st (MARK ?st1)" by (rule same_trans [OF same_S_ADVANCE same_MARK])
  have y: "symbols ?st1 = symbols st" by (simp add: S_ADVANCE_def)
  have b: "ok st (finish COMMA, MARK ?st1)" if "symbols st COMMA"
    using m that by (simp add: ok_finish)
  have c: "ok st (finish END, pop st)" if "symbols st END"
    using layout_end_ok [of st] that by (simp add: layout_end_def SYM_def)
  show ?thesis
    unfolding close_layout_in_list_def Let_def y
    using a b c by (simp add: ok_same)
qed

lemma inline_tokens_ok: "ok st (inline_tokens st)"
  unfolding inline_tokens_def
  using ok_short [of st where', OF where_ok] ok_short [of st in', OF in_ok]
    ok_short [of st else', OF else_ok] ok_short [of st layout_end, OF layout_end_ok]
    close_layout_in_list_ok [of st]
  by simp

lemma newline_indent_ok: "ok st (newline_indent indent st)"
  unfolding newline_indent_def
  apply (rule ok_bind [OF dedent_ok])
  apply (rule ok_bind [OF close_layout_in_list_ok])
  apply (simp add: newline_semicolon_def SYM_def ok_same ok_finish)
  done

lemma newline_token_ok: "ok st (newline_token indent st)"
  by (simp add: newline_token_def minus_ok in_ok ok_fail ok_same)

lemma newline_ok: "ok st (newline indent st)"
  unfolding newline_def
  apply (rule ok_bind [OF eof_ok])
  apply (rule ok_bind [OF comment_ok])
  apply (rule ok_bind [OF newline_token_ok])
  apply (rule newline_indent_ok)
  done

lemma init_ok: "ok st (init iswspace st)"
  unfolding init_def
  apply (rule ok_bind [OF eof_ok])
  apply (simp add: Let_def res_fail_def res_cont_def)
  apply (intro conjI impI)
   apply (simp add: ok_fail [unfolded res_fail_def])
  apply (rule ok_bind [OF dot_ok])
  apply (simp add: ok_same)
  apply (intro impI)
  apply (rule ok_bind [where f = fold' and g = "\<lambda>res st. (res_cont, st)", OF fold_ok])
  apply (simp add: ok_same)
  done

lemma layout_start_ok: "okE st (layout_start c st)"
  by (auto simp: okE_def layout_start_def push_def ok_def finish_def res_finish_def res_cont_def
      split: sum.splits)

lemma immediate_ok: "okE st (immediate c st)"
proof (cases "layout_start c st")
  case (Inl e)
  then show ?thesis by (simp add: immediate_def okE_def)
next
  case (Inr p)
  obtain res st1 where p: "p = (res, st1)" by (cases p)
  have o: "ok st (res, st1)" using layout_start_ok [of st c] Inr p by (simp add: okE_def)
  show ?thesis
  proof (cases "finished res")
    case True
    then show ?thesis using Inr p o by (simp add: immediate_def okE_def)
  next
    case False
    then have s: "same st st1" using o by (simp add: ok_unfinished)
    have a: "ok st1 (finish SEMICOLON, st1)" if "SYM st1 SEMICOLON"
      using that by (simp add: ok_finish SYM_def)
    have b: "ok st1 (case repeat_end c st1 of (res, st2) \<Rightarrow>
                if finished res then (res, st2) else inline_tokens st2)"
      by (rule ok_bind [OF repeat_end_ok]) (rule inline_tokens_ok)
    show ?thesis using Inr p False ok_same_left [OF s a] ok_same_left [OF s b]
      by (auto simp: immediate_def okE_def post_end_semicolon_def Let_def finish_def
          res_finish_def res_cont_def split: prod.splits)
  qed
qed

lemma scan_main_ok: "okE st (scan_main st)"
proof -
  let ?st1 = "skipspace st"
  have s1: "same st ?st1" by (rule same_skipspace)
  obtain res st2 where e: "eof ?st1 = (res, st2)" by (cases "eof ?st1")
  have o2: "ok st (res, st2)" using ok_same_left [OF s1 eof_ok [of ?st1]] e by simp
  show ?thesis
  proof (cases "finished res")
    case True
    then show ?thesis using e o2 by (simp add: scan_main_def Let_def okE_def)
  next
    case False
    then have s2: "same st st2" using o2 by (simp add: ok_unfinished)
    let ?st3 = "MARK st2"
    have s3: "same st ?st3" using same_trans [OF s2 same_MARK] .
    show ?thesis
    proof (cases "is_newline (PEEK ?st3)")
      case True
      obtain indent st4 where c: "count_indent (S_SKIP ?st3) = (indent, st4)"
        by (cases "count_indent (S_SKIP ?st3)")
      have "same (S_SKIP ?st3) st4"
        using same_count_indent_loop [of "S_SKIP ?st3" 0] c by (simp add: count_indent_def)
      then have "same st st4" by (rule same_trans [OF same_trans [OF s3 same_S_SKIP]])
      then have "ok st (newline indent st4)" using newline_ok by (rule ok_same_left)
      then show ?thesis using e False True c by (simp add: scan_main_def Let_def okE_def)
    next
      case nl: False
      have "okE ?st3 (immediate (column ?st3) ?st3)" by (rule immediate_ok)
      then have "okE st (immediate (column ?st3) ?st3)"
        using ok_same_left [OF s3] by (auto simp: okE_def split: sum.splits)
      then show ?thesis using e False nl by (simp add: scan_main_def Let_def)
    qed
  qed
qed

lemma scan_all_ok: "okE st (scan_all iswspace st)"
proof (cases "init iswspace st")
  case (Pair res st1)
  have o: "ok st (res, st1)" using init_ok [of st iswspace] Pair by simp
  show ?thesis
  proof (cases "finished res")
    case True
    then show ?thesis using Pair o by (simp add: scan_all_def okE_def)
  next
    case False
    then have "same st st1" using o by (simp add: ok_unfinished)
    then have "okE st (scan_main st1)"
      using scan_main_ok [of st1] ok_same_left [of st st1]
      by (auto simp: okE_def split: sum.splits)
    then show ?thesis using Pair False by (simp add: scan_all_def)
  qed
qed

lemma scan_cases:
  assumes "scan iswspace vec l syms = Inr (b, l', vec')"
  obtains res st' where
    "ok \<lparr>lexer = l, symbols = syms, indents = vec\<rparr> (res, st')"
    "b \<longleftrightarrow> finished res \<and> sym res \<noteq> FAIL"
    "b \<Longrightarrow> result_symbol l' = sym res"
    "vec' = indents st'"
proof -
  let ?st = "\<lparr>lexer = l, symbols = syms, indents = vec\<rparr>"
  from assms obtain res st' where r: "scan_all iswspace ?st = Inr (res, st')"
    by (auto simp: scan_def eval_def split: sum.splits prod.splits)
  have "ok ?st (res, st')" using scan_all_ok [of ?st iswspace] r by (simp add: okE_def)
  moreover have "b \<longleftrightarrow> finished res \<and> sym res \<noteq> FAIL" "b \<Longrightarrow> result_symbol l' = sym res"
    "vec' = indents st'"
    using assms r by (auto simp: scan_def eval_def split: if_splits)
  ultimately show ?thesis using that by blast
qed

text \<open>
  A scan that starts at a character that is neither blank, a line break, a dot nor a
  minus, with \<open>START\<close> requested, pushes the column and emits \<open>START\<close>.
\<close>

lemma scan_layout_start:
  assumes "syms START" and "\<not> all_syms syms" and "rest l = c # r"
    and "c \<notin> {0x20, 0x09, 0x0A, 0x0D, 0x0C, 0x2E, 0x2D}"
  shows "scan iswspace vec l syms =
     (case VEC_PUSH vec (ucast (col l)) of
        Inl e \<Rightarrow> Inl e
      | Inr vec' \<Rightarrow> Inr (True, (mark_end l)\<lparr>result_symbol := START\<rparr>, vec'))"
proof -
  let ?st = "\<lparr>lexer = l, symbols = syms, indents = vec\<rparr>"
  have r: "rest (lexer ?st) = c # r" using assms(3) by simp
  have p: "PEEK ?st = c" using r by (rule PEEK_Cons)
  have ne: "\<not> is_eof ?st" using r by (simp add: is_eof_rest)
  have i: "init iswspace ?st = (res_cont, ?st)"
    using assms(2,4) p
    by (simp add: init_def eof_not_eof [OF ne] after_error_def res_cont_def dot_def fold'_def
        Let_def)
  have sk: "skipspace ?st = ?st" using assms(4) p by (intro skipspace_stop) simp_all
  have r3: "rest (lexer (MARK ?st)) = c # r" using r by simp
  have p3: "PEEK (MARK ?st) = c" using r3 by (rule PEEK_Cons)
  have ne3: "\<not> is_eof (MARK ?st)" using r3 by (simp add: is_eof_rest)
  have cl: "column (MARK ?st) = col l"
    by (simp add: column_def ne3) (simp add: get_column_def MARK_def mark_end_def)
  have m: "scan_main ?st = immediate (col l) (MARK ?st)"
    using assms(4)
    by (simp add: scan_main_def sk Let_def eof_not_eof [OF ne] res_cont_def p3 is_newline_def cl)
  have "immediate (col l) (MARK ?st) =
     (case VEC_PUSH vec (ucast (col l)) of
        Inl e \<Rightarrow> Inl e
      | Inr vec' \<Rightarrow> Inr (finish START, (MARK ?st)\<lparr>indents := vec'\<rparr>))"
    using assms(1)
    by (simp add: immediate_def layout_start_def push_def MARK_def finish_def res_finish_def
        split: sum.splits)
  then show ?thesis
    by (simp add: scan_def eval_def scan_all_def i res_cont_def m finish_def res_finish_def
        MARK_def split: sum.splits)
qed

lemma VEC_PUSH_create: "VEC_PUSH create x = Inr \<lparr>data = [x], cap = 20\<rparr>"
  by (simp add: VEC_PUSH_def create_def len_def VEC_RESIZE_def)

lemma scan_foo_start:
  "scan isws create (lexer_at (code_points ''foo'')) (requested [START, SEMICOLON]) =
     Inr (True,
          \<lparr>rest = code_points ''foo'', pos = 0, col = 0, token_start = 0, token_end = Some 0,
             result_symbol = START\<rparr>,
          \<lparr>data = [0], cap = 20\<rparr>)"
proof -
  have a: "requested [START, SEMICOLON] START" "\<not> all_syms (requested [START, SEMICOLON])"
    by (simp_all add: requested_def all_syms_def syms_upto_EMPTY_def)
  have r: "rest (lexer_at (code_points ''foo'')) = 0x66 # code_points ''oo''"
    by (simp add: lexer_at_def code_points_def)
  show ?thesis
    using scan_layout_start [OF a r, of isws create]
    by (simp add: VEC_PUSH_create lexer_at_def mark_end_def code_points_def)
qed

text \<open>
  Claim C1. Every scan call that returns true emits a symbol that was requested, or
  \<open>COMMENT\<close>, or \<open>FOLD\<close>: the comment rules and the fold of \<open>minus\<close> finish without
  looking at the valid symbols.
\<close>

theorem scan_emits_requested_or_comment:
  assumes "scan iswspace vec l syms = Inr (True, l', vec')"
  shows "syms (result_symbol l') \<or> result_symbol l' = COMMENT \<or> result_symbol l' = FOLD"
  using assms by (elim scan_cases) (auto simp: ok_def)

theorem scan_emits_requested_or_comment_witness:
  "scan isws create (lexer_at (code_points ''foo'')) (requested [START, SEMICOLON]) =
     Inr (True,
          \<lparr>rest = code_points ''foo'', pos = 0, col = 0, token_start = 0, token_end = Some 0,
             result_symbol = START\<rparr>,
          \<lparr>data = [0], cap = 20\<rparr>) \<and>
   requested [START, SEMICOLON] START"
  using scan_foo_start scan_emits_requested_or_comment [OF scan_foo_start] by simp

text \<open>
  The claim as stated fails: with no symbol requested, a scan that starts at a line
  break before \<^verbatim>\<open>-- hi\<close> emits \<open>COMMENT\<close>, and one before \<^verbatim>\<open>---\<close> emits \<open>FOLD\<close>.
\<close>

theorem scan_emits_unrequested_comment:
  "\<not> requested [] COMMENT \<and> \<not> requested [] FOLD \<and>
   scan isws create (lexer_at (code_points (CHR 0x0A # ''-- hi''))) (requested []) =
     Inr (True,
          \<lparr>rest = [], pos = 6, col = 5, token_start = 1, token_end = Some 6,
             result_symbol = COMMENT\<rparr>,
          create) \<and>
   scan isws create (lexer_at (code_points (CHR 0x0A # ''---''))) (requested []) =
     Inr (True,
          \<lparr>rest = [], pos = 4, col = 3, token_start = 1, token_end = Some 4,
             result_symbol = FOLD\<rparr>,
          create)"
  by code_simp

lemma push_len: "VEC_PUSH vec x = Inr vec' \<Longrightarrow> len vec' = len vec + 1"
  by (auto simp: VEC_PUSH_def Let_def len_def VEC_RESIZE_def split: if_splits)

lemma pop_len: "len vec \<noteq> 0 \<Longrightarrow> len (VEC_POP vec) = len vec - 1"
  by (simp add: VEC_POP_def len_def)

lemma scan_stack_change:
  assumes "scan iswspace vec l syms = Inr (b, l', vec')"
  shows "(len vec < len vec' \<longrightarrow> b \<and> result_symbol l' = START) \<and>
         (len vec' < len vec \<longrightarrow> b \<and> (result_symbol l' = END \<or> result_symbol l' = IN))"
  using assms
proof (elim scan_cases)
  fix res st'
  assume o: "ok \<lparr>lexer = l, symbols = syms, indents = vec\<rparr> (res, st')"
    and b: "b \<longleftrightarrow> finished res \<and> sym res \<noteq> FAIL" "b \<Longrightarrow> result_symbol l' = sym res"
    and v: "vec' = indents st'"
  from o consider (same) "vec' = vec"
    | (pop) "finished res" "sym res = END \<or> sym res = IN" "len vec \<noteq> 0" "vec' = VEC_POP vec"
    | (push) x where "finished res" "sym res = START" "VEC_PUSH vec x = Inr vec'"
    unfolding ok_def v by auto
  then show ?thesis
  proof cases
    case same
    then show ?thesis by simp
  next
    case pop
    then show ?thesis using b by (auto simp: pop_len)
  next
    case push
    then show ?thesis using b push_len [OF push(3)] by auto
  qed
qed

text \<open>
  Claim C6. In every scan call the indent stack gets longer only if the call returns
  true with \<open>START\<close>, and shorter only if it returns true with \<open>END\<close> or \<open>IN\<close>; and
  \<open>pop\<close> on an empty stack changes nothing.
\<close>

theorem scan_stack_length:
  assumes "scan iswspace vec l syms = Inr (b, l', vec')"
  shows "(len vec < len vec' \<longrightarrow> b \<and> result_symbol l' = START) \<and>
         (len vec' < len vec \<longrightarrow> b \<and> (result_symbol l' = END \<or> result_symbol l' = IN)) \<and>
         (len (indents st) = 0 \<longrightarrow> pop st = st)"
  using scan_stack_change [OF assms] by (simp add: pop_def indent_exists_def)

theorem scan_stack_length_witness:
  "scan isws create (lexer_at (code_points ''foo'')) (requested [START, SEMICOLON]) =
     Inr (True,
          \<lparr>rest = code_points ''foo'', pos = 0, col = 0, token_start = 0, token_end = Some 0,
             result_symbol = START\<rparr>,
          \<lparr>data = [0], cap = 20\<rparr>) \<and>
   len create < len \<lparr>data = [0], cap = 20\<rparr> \<and>
   scan isws \<lparr>data = [2], cap = 20\<rparr> (lexer_at (code_points (CHR 0x0A # ''baz'')))
       (requested [SEMICOLON, END]) =
     Inr (True,
          \<lparr>rest = code_points ''baz'', pos = 1, col = 0, token_start = 1, token_end = Some 0,
             result_symbol = END\<rparr>,
          \<lparr>data = [], cap = 20\<rparr>) \<and>
   len \<lparr>data = [], cap = 20\<rparr> < len \<lparr>data = [2], cap = 20\<rparr>"
proof -
  have e2: "scan isws \<lparr>data = [2], cap = 20\<rparr> (lexer_at (code_points (CHR 0x0A # ''baz'')))
       (requested [SEMICOLON, END]) =
     Inr (True,
          \<lparr>rest = code_points ''baz'', pos = 1, col = 0, token_start = 1, token_end = Some 0,
             result_symbol = END\<rparr>,
          \<lparr>data = [], cap = 20\<rparr>)"
    by code_simp
  show ?thesis
    using scan_foo_start e2 scan_stack_length [OF scan_foo_start] scan_stack_length [OF e2]
    by (simp add: len_def create_def)
qed


lemma same_indents: "same st st' \<Longrightarrow> indents st' = indents st"
  by (simp add: same_def)

lemma VEC_PUSH_defined:
  assumes "len vec \<le> cap vec" and "len vec < 2 ^ 31"
  shows "\<exists>vec'. VEC_PUSH vec x = Inr vec'"
proof -
  have "(len vec * 2) mod 2 ^ 32 = len vec * 2" using assms(2) by simp
  then have "len vec < max 20 ((len vec * 2) mod 2 ^ 32)" by simp
  then show ?thesis using assms(1)
    by (auto simp: VEC_PUSH_def Let_def VEC_RESIZE_def)
qed

lemma immediate_defined:
  assumes "len (indents st) \<le> cap (indents st)" and "len (indents st) < 2 ^ 31"
  shows "\<exists>p. immediate c st = Inr p"
proof -
  obtain vec' where "VEC_PUSH (indents st) (ucast c) = Inr vec'"
    using VEC_PUSH_defined [OF assms] by blast
  then have "\<exists>p. layout_start c st = Inr p"
    by (simp add: layout_start_def push_def)
  then obtain res st1 where "layout_start c st = Inr (res, st1)" by auto
  then show ?thesis
    by (simp add: immediate_def Let_def split: prod.splits)
qed

lemma scan_main_defined:
  assumes "len (indents st) \<le> cap (indents st)" and "len (indents st) < 2 ^ 31"
  shows "\<exists>p. scan_main st = Inr p"
proof -
  let ?st1 = "skipspace st"
  obtain res st2 where e: "eof ?st1 = (res, st2)" by (cases "eof ?st1")
  show ?thesis
  proof (cases "finished res \<or> is_newline (PEEK (MARK st2))")
    case True
    then show ?thesis using e by (auto simp: scan_main_def Let_def split: prod.splits)
  next
    case False
    have "ok ?st1 (res, st2)" using eof_ok [of ?st1] e by simp
    then have "same ?st1 st2" using False by (simp add: ok_unfinished)
    then have "same st (MARK st2)"
      by (rule same_trans [OF same_trans [OF same_skipspace] same_MARK])
    then have "indents (MARK st2) = indents st" by (rule same_indents)
    then have "\<exists>p. immediate (column (MARK st2)) (MARK st2) = Inr p"
      using assms by (intro immediate_defined) simp_all
    then obtain p where "immediate (column (MARK st2)) (MARK st2) = Inr p" ..
    then show ?thesis using e False by (simp add: scan_main_def Let_def)
  qed
qed

lemma scan_defined:
  assumes "len vec \<le> cap vec" and "len vec < 2 ^ 31"
  shows "\<exists>b l' vec'. scan iswspace vec l syms = Inr (b, l', vec')"
proof -
  let ?st = "\<lparr>lexer = l, symbols = syms, indents = vec\<rparr>"
  obtain res st1 where i: "init iswspace ?st = (res, st1)" by (cases "init iswspace ?st")
  have "\<exists>p. scan_all iswspace ?st = Inr p"
  proof (cases "finished res")
    case True
    then show ?thesis using i by (simp add: scan_all_def)
  next
    case False
    have "ok ?st (res, st1)" using init_ok [of ?st iswspace] i by simp
    then have "indents st1 = vec" using False same_indents [OF ok_unfinished] by fastforce
    then show ?thesis using i False scan_main_defined [of st1] assms by (simp add: scan_all_def)
  qed
  then obtain r st' where "scan_all iswspace ?st = Inr (r, st')" by auto
  then show ?thesis by (auto simp: scan_def eval_def)
qed

section \<open>Block comments\<close>

lemma advance_over_append: "advance_over (p @ q) st = advance_over q (advance_over p st)"
  by (induction p arbitrary: st) simp_all

lemma rest_advance_over:
  "rest (lexer st) = p @ r \<Longrightarrow> rest (lexer (advance_over p st)) = r"
  by (induction p arbitrary: st) (simp_all add: rest_S_ADVANCE)

lemma loop_opener:
  assumes "rest (lexer st) = opener @ r"
  shows "multiline_comment_loop level st = multiline_comment_loop (level + 1) (advance_over opener st)"
proof -
  have r: "rest (lexer st) = 0x7B # 0x2D # r" using assms by (simp add: opener_def)
  have p1: "PEEK st = 0x7B" using r by (rule PEEK_Cons)
  have p2: "PEEK (S_ADVANCE st) = 0x2D" using rest_S_ADVANCE [OF r] by (rule PEEK_Cons)
  show ?thesis
    by (subst multiline_comment_loop.simps) (simp add: p1 p2 Let_def opener_def)
qed

lemma loop_closer:
  assumes "rest (lexer st) = closer @ r"
  shows "multiline_comment_loop level st =
     (if level = 0 then multiline_comment_success (advance_over closer st)
      else multiline_comment_loop (level - 1) (advance_over closer st))"
proof -
  have r: "rest (lexer st) = 0x2D # 0x7D # r" using assms by (simp add: closer_def)
  have p1: "PEEK st = 0x2D" using r by (rule PEEK_Cons)
  have p2: "PEEK (S_ADVANCE st) = 0x7D" using rest_S_ADVANCE [OF r] by (rule PEEK_Cons)
  show ?thesis
    by (subst multiline_comment_loop.simps) (simp add: p1 p2 Let_def closer_def)
qed


lemma starts_with_Cons [simp]: "starts_with c (x # xs) \<longleftrightarrow> x = c"
  by (simp add: starts_with_def)

lemma starts_with_Nil [simp]: "\<not> starts_with c []"
  by (simp add: starts_with_def)






lemma same_advance_over: "same st (advance_over p st)"
proof (induction p arbitrary: st)
  case Nil
  then show ?case by simp
next
  case (Cons c p)
  show ?case using same_trans [OF same_S_ADVANCE Cons [of "S_ADVANCE st"]] by simp
qed

lemma pos_S_ADVANCE: "rest (lexer st) = c # r \<Longrightarrow> pos (lexer (S_ADVANCE st)) = pos (lexer st) + 1"
  by (simp add: S_ADVANCE_def lexer_advance_def)

lemma pos_advance_over:
  "rest (lexer st) = p @ r \<Longrightarrow> pos (lexer (advance_over p st)) = pos (lexer st) + length p"
proof (induction p arbitrary: st)
  case Nil
  then show ?case by simp
next
  case (Cons c p)
  have r: "rest (lexer st) = c # (p @ r)" using Cons.prems by simp
  show ?case
    using Cons.IH [OF rest_S_ADVANCE [OF r]] pos_S_ADVANCE [OF r] by simp
qed


lemma brace_enters:
  assumes "rest (lexer st) = opener @ r"
  shows "brace st = multiline_comment_loop 0 (advance_over opener st)"
proof -
  have r: "rest (lexer st) = 0x7B # 0x2D # r" using assms by (simp add: opener_def)
  have p1: "PEEK st = 0x7B" using r by (rule PEEK_Cons)
  have p2: "PEEK (S_ADVANCE st) = 0x2D" using rest_S_ADVANCE [OF r] by (rule PEEK_Cons)
  show ?thesis
    by (simp add: brace_def p1 p2 Let_def opener_def multiline_comment_def)
qed



text \<open>
  A scan that starts at a line feed directly before an opening brace runs \<open>brace\<close>.
\<close>

lemma scan_newline_brace:
  assumes "\<not> all_syms syms" and "rest l = 0x0A # 0x7B # r"
  shows "scan iswspace vec l syms =
     (case brace (S_SKIP (MARK \<lparr>lexer = l, symbols = syms, indents = vec\<rparr>)) of
        (res, st') \<Rightarrow>
          if finished res \<and> sym res \<noteq> FAIL
          then Inr (True, (lexer st')\<lparr>result_symbol := sym res\<rparr>, indents st')
          else Inr (False, lexer st', indents st'))"
proof -
  let ?st = "\<lparr>lexer = l, symbols = syms, indents = vec\<rparr>"
  let ?st3 = "MARK ?st"
  let ?st4 = "S_SKIP ?st3"
  have r: "rest (lexer ?st) = 0x0A # 0x7B # r" using assms(2) by simp
  have p: "PEEK ?st = 0x0A" using r by (rule PEEK_Cons)
  have ne: "\<not> is_eof ?st" using r by (simp add: is_eof_rest)
  have i: "init iswspace ?st = (res_cont, ?st)"
    using assms(1) p
    by (simp add: init_def eof_not_eof [OF ne] after_error_def res_cont_def dot_def fold'_def
        Let_def)
  have r3: "rest (lexer ?st3) = 0x0A # 0x7B # r" using r by simp
  have p3: "PEEK ?st3 = 0x0A" using r3 by (rule PEEK_Cons)
  have r4: "rest (lexer ?st4) = 0x7B # r" using r3 by (rule rest_S_SKIP)
  have p4: "PEEK ?st4 = 0x7B" using r4 by (rule PEEK_Cons)
  have ne4: "\<not> is_eof ?st4" using r4 by (simp add: is_eof_rest)
  have c: "count_indent ?st4 = (0, ?st4)"
    unfolding count_indent_def by (rule count_indent_stop) (simp_all add: p4 is_newline_def)
  have n: "newline 0 ?st4 = (case brace ?st4 of (res, st') \<Rightarrow>
             if finished res then (res, st') else (res_fail, st'))"
    by (simp add: newline_def eof_not_eof [OF ne4] res_cont_def comment_def p4 res_fail_def
        split: prod.splits)
  have m: "scan_main ?st = Inr (newline 0 ?st4)"
    by (simp add: scan_main_def skipspace_stop p Let_def eof_not_eof [OF ne] res_cont_def
        p3 is_newline_def c)
  show ?thesis
    by (simp add: scan_def eval_def scan_all_def i res_cont_def m n res_fail_def
        split: prod.splits)
qed

lemma pos_S_SKIP: "rest (lexer st) = c # r \<Longrightarrow> pos (lexer (S_SKIP st)) = pos (lexer st) + 1"
  by (simp add: S_SKIP_def lexer_advance_def)

lemma pos_MARK [simp]: "pos (lexer (MARK st)) = pos (lexer st)"
  by (simp add: MARK_def mark_end_def)

lemma token_end_MARK [simp]: "token_end (lexer (MARK st)) = Some (pos (lexer st))"
  by (simp add: MARK_def mark_end_def)

lemma scan_newline_comment:
  assumes "\<not> all_syms syms" and "rest l = 0x0A # p @ r" and "starts_with 0x7B p"
    and "brace (S_SKIP (MARK \<lparr>lexer = l, symbols = syms, indents = vec\<rparr>)) =
         (finish COMMENT,
          MARK (advance_over p (S_SKIP (MARK \<lparr>lexer = l, symbols = syms, indents = vec\<rparr>))))"
  shows "\<exists>l'. scan iswspace vec l syms = Inr (True, l', vec) \<and> result_symbol l' = COMMENT \<and>
           rest l' = r \<and> pos l' = pos l + 1 + length p \<and> token_end l' = Some (pos l')"
proof -
  let ?st = "\<lparr>lexer = l, symbols = syms, indents = vec\<rparr>"
  let ?st4 = "S_SKIP (MARK ?st)"
  let ?st5 = "advance_over p ?st4"
  obtain q where p: "p = 0x7B # q" using assms(3) by (cases p) simp_all
  have r0: "rest (lexer (MARK ?st)) = 0x0A # p @ r" using assms(2) by simp
  have r4: "rest (lexer ?st4) = p @ r" using r0 by (rule rest_S_SKIP)
  have p4: "pos (lexer ?st4) = pos l + 1" using pos_S_SKIP [OF r0] by simp
  have s: "same ?st ?st5"
    by (rule same_trans [OF same_trans [OF same_MARK same_S_SKIP] same_advance_over])
  have "scan iswspace vec l syms =
      Inr (True, (lexer (MARK ?st5))\<lparr>result_symbol := COMMENT\<rparr>, indents (MARK ?st5))"
    using scan_newline_brace [where r = "q @ r" and l = l and vec = vec and iswspace = iswspace,
        OF assms(1)] assms(2) p
    by (simp add: assms(4) finish_def res_finish_def)
  moreover have "indents (MARK ?st5) = vec"
    using same_indents [OF same_trans [OF s same_MARK]] by simp
  moreover have "rest (lexer (MARK ?st5)) = r" using rest_advance_over [OF r4] by simp
  moreover have "pos (lexer (MARK ?st5)) = pos l + 1 + length p"
    using pos_advance_over [OF r4] p4 by simp
  ultimately show ?thesis by simp
qed












lemma run_openers:
  assumes "rest (lexer st) = concat (replicate n opener) @ r"
  shows "multiline_comment_loop level st =
         multiline_comment_loop (level + of_nat n) (advance_over (concat (replicate n opener)) st)"
  using assms
proof (induction n arbitrary: level st)
  case 0
  then show ?case by simp
next
  case (Suc n)
  have r: "rest (lexer st) = opener @ (concat (replicate n opener) @ r)" using Suc.prems by simp
  have "multiline_comment_loop level st =
        multiline_comment_loop (level + 1) (advance_over opener st)"
    using r by (rule loop_opener)
  also have "\<dots> = multiline_comment_loop (level + 1 + of_nat n)
        (advance_over (concat (replicate n opener)) (advance_over opener st))"
    using rest_advance_over [OF r] by (rule Suc.IH)
  finally show ?case by (simp add: advance_over_append ac_simps)
qed

lemma brace_counter_wraps:
  assumes "rest (lexer st) = opener @ concat (replicate n opener) @ closer @ r"
    and "(of_nat n :: 16 word) = 0"
  shows "brace st =
     (finish COMMENT, MARK (advance_over (opener @ concat (replicate n opener) @ closer) st))"
proof -
  let ?st1 = "advance_over opener st"
  let ?st2 = "advance_over (concat (replicate n opener)) ?st1"
  have r1: "rest (lexer ?st1) = concat (replicate n opener) @ (closer @ r)"
    using rest_advance_over [OF assms(1)] .
  have r2: "rest (lexer ?st2) = closer @ r" using rest_advance_over [OF r1] .
  have "brace st = multiline_comment_loop 0 ?st1" using assms(1) by (rule brace_enters)
  also have "\<dots> = multiline_comment_loop (0 + of_nat n) ?st2" using r1 by (rule run_openers)
  also have "\<dots> = multiline_comment_success (advance_over closer ?st2)"
    using loop_closer [OF r2, of 0] assms(2) by simp
  finally show ?thesis by (simp add: multiline_comment_success_def advance_over_append)
qed

lemma length_opener: "length opener = 2" by (simp add: opener_def)

lemma length_closer: "length closer = 2" by (simp add: closer_def)

lemma length_openers: "length (concat (replicate n opener)) = 2 * n"
  by (induction n) (simp_all add: opener_def)

lemma replicate_pairs:
  "concat (replicate (Suc n) a) @ concat (replicate (Suc n) b) =
   a @ concat (replicate n a) @ b @ concat (replicate n b)"
  by simp

text \<open>
  Claim C8. The nesting counter is a \<open>uint16_t\<close> and wraps: after an opener followed by
  65536 nested openers it is 0 again, so the first closer ends the comment. On 65537
  openers followed by 65537 closers the scan emits \<open>COMMENT\<close> right after the first
  closer, with 65536 closers left unread.
\<close>

theorem nested_comment_counter_wraps:
  "\<exists>l'. scan isws create
          (lexer_at (0x0A # concat (replicate 65537 opener) @ concat (replicate 65537 closer)))
          (requested [COMMENT]) = Inr (True, l', create) \<and>
        result_symbol l' = COMMENT \<and> pos l' = 131077 \<and> token_end l' = Some 131077 \<and>
        rest l' = concat (replicate 65536 closer)"
proof -
  let ?p = "opener @ concat (replicate 65536 opener) @ closer"
  let ?r = "concat (replicate 65536 closer)"
  let ?l = "lexer_at (0x0A # ?p @ ?r)"
  let ?st4 = "S_SKIP (MARK \<lparr>lexer = ?l, symbols = requested [COMMENT], indents = create\<rparr>)"
  have i: "0x0A # concat (replicate 65537 opener) @ concat (replicate 65537 closer) = 0x0A # ?p @ ?r"
    using replicate_pairs [of 65536 opener closer] by simp
  have a: "\<not> all_syms (requested [COMMENT])"
    by (simp add: all_syms_def syms_upto_EMPTY_def requested_def)
  have r: "rest ?l = 0x0A # ?p @ ?r" by (simp add: lexer_at_def)
  have s: "starts_with 0x7B ?p" by (simp add: opener_def)
  have r4: "rest (lexer ?st4) = opener @ concat (replicate 65536 opener) @ closer @ ?r"
    by (rule rest_S_SKIP [where c = "0x0A"]) (simp add: lexer_at_def)
  have b: "brace ?st4 = (finish COMMENT, MARK (advance_over ?p ?st4))"
    using r4 by (rule brace_counter_wraps) simp
  have "length ?p = 131076" by (simp add: length_openers length_opener length_closer)
  then show ?thesis
    unfolding i using scan_newline_comment [OF a r s b, of isws]
    by (auto simp: lexer_at_def)
qed

end
